theory Spec2Isabelle
  imports Main "HOL-Library.Word" "HOL-Library.Sublist" "HOL-Library.Multiset"
begin

section \<open>JavaScript strings\<close>

text \<open>
  A JavaScript string is a sequence of 16-bit code units. The regular expressions of
  \<^verbatim>\<open>App.js\<close> carry no \<^verbatim>\<open>u\<close> flag, so they work on code units as well.
  \<open>js\<close> turns an ASCII literal of the source into such a sequence.
\<close>

type_synonym jschar = "16 word"
type_synonym jsstring = "jschar list"

definition js :: "string \<Rightarrow> jsstring" where
  "js s = map of_char s"

text \<open>
  The line terminators of ECMAScript (LF, CR, LS, PS): the characters the pattern
  \<^verbatim>\<open>.\<close> does not match.
\<close>

definition isLineTerminator :: "jschar \<Rightarrow> bool" where
  "isLineTerminator c = (c = 0x0A \<or> c = 0x0D \<or> c = 0x2028 \<or> c = 0x2029)"

text \<open>
  The class \<^verbatim>\<open>\s\<close>, which is also what \<^verbatim>\<open>String.prototype.trim\<close> removes:
  WhiteSpace (TAB, VT, FF, ZWNBSP and the space separators) and the line terminators.
\<close>

definition isWhiteSpace :: "jschar \<Rightarrow> bool" where
  "isWhiteSpace c =
     (c = 0x09 \<or> c = 0x0B \<or> c = 0x0C \<or> c = 0x20 \<or> c = 0xA0 \<or> c = 0x1680
      \<or> (0x2000 \<le> c \<and> c \<le> 0x200A) \<or> c = 0x202F \<or> c = 0x205F \<or> c = 0x3000
      \<or> c = 0xFEFF \<or> isLineTerminator c)"

definition trim :: "jsstring \<Rightarrow> jsstring" where
  "trim s = rev (dropWhile isWhiteSpace (rev (dropWhile isWhiteSpace s)))"

text \<open>\<^verbatim>\<open>s.includes(q)\<close>: \<open>q\<close> occurs in \<open>s\<close> as a contiguous run.\<close>

fun js_includes :: "jsstring \<Rightarrow> jsstring \<Rightarrow> bool" where
  "js_includes [] q = (q = [])"
| "js_includes (c # cs) q = (prefix q (c # cs) \<or> js_includes cs q)"

text \<open>\<^verbatim>\<open>text.split(/\n/)\<close> and \<^verbatim>\<open>lines.join('\n')\<close>.\<close>

fun split_lines :: "jsstring \<Rightarrow> jsstring list" where
  "split_lines [] = [[]]"
| "split_lines (c # cs) =
     (if c = 0x0A then [] # split_lines cs
      else (case split_lines cs of [] \<Rightarrow> [[c]] | l # ls \<Rightarrow> (c # l) # ls))"

fun join_lines :: "jsstring list \<Rightarrow> jsstring" where
  "join_lines [] = []"
| "join_lines [l] = l"
| "join_lines (l # m # ls) = l @ 0x0A # join_lines (m # ls)"


section \<open>The markdown renderer\<close>

text \<open>\<^verbatim>\<open>s.replace(/c/g, r)\<close> for a single character \<open>c\<close>.\<close>

definition replace_char :: "jschar \<Rightarrow> jsstring \<Rightarrow> jsstring \<Rightarrow> jsstring" where
  "replace_char c r s = concat (map (\<lambda>x. if x = c then r else [x]) s)"

text \<open>\<^verbatim>\<open>esc\<close>: three global replacements, in the order of the source.\<close>

definition esc :: "jsstring \<Rightarrow> jsstring" where
  "esc s =
     replace_char 0x3E (js ''&gt;'')
       (replace_char 0x3C (js ''&lt;'')
         (replace_char 0x26 (js ''&amp;'') s))"

text \<open>
  \<^verbatim>\<open>/^#{k}\s+/.test(line)\<close> and \<^verbatim>\<open>line.replace(/^#{k}\s+/, '')\<close> for
  \<open>k\<close> hash signs: the greedy \<^verbatim>\<open>\s+\<close> takes the whole run of white space.
\<close>

definition heading_test :: "nat \<Rightarrow> jsstring \<Rightarrow> bool" where
  "heading_test k line =
     (take k line = replicate k 0x23 \<and>
      (case drop k line of [] \<Rightarrow> False | c # _ \<Rightarrow> isWhiteSpace c))"

definition heading_strip :: "nat \<Rightarrow> jsstring \<Rightarrow> jsstring" where
  "heading_strip k line =
     (if heading_test k line then dropWhile isWhiteSpace (drop k line) else line)"

text \<open>
  The patterns \<^verbatim>\<open>/\*\*(.+?)\*\*/g\<close>, \<^verbatim>\<open>/\*(.+?)\*/g\<close> and
  \<^verbatim>\<open>/`(.+?)`/g\<close> have the shape \<open>d(.+?)d\<close> for a delimiter \<open>d\<close>.
  \<open>lazy_capture d acc s\<close> is the lazy group once it holds \<open>acc\<close>: it stops at the
  first place where \<open>d\<close> follows, takes one more character otherwise, and fails at a
  line terminator or at the end of the input. It returns the captured text and the
  input after the closing delimiter.
\<close>

fun lazy_capture :: "jsstring \<Rightarrow> jsstring \<Rightarrow> jsstring \<Rightarrow> (jsstring \<times> jsstring) option" where
  "lazy_capture d acc [] = (if prefix d [] then Some (acc, []) else None)"
| "lazy_capture d acc (c # cs) =
     (if prefix d (c # cs) then Some (acc, drop (length d) (c # cs))
      else if isLineTerminator c then None
      else lazy_capture d (acc @ [c]) cs)"

text \<open>A match of \<open>d(.+?)d\<close> at the very start of \<open>s\<close>; the group takes at least one character.\<close>

definition match_delim :: "jsstring \<Rightarrow> jsstring \<Rightarrow> (jsstring \<times> jsstring) option" where
  "match_delim d s =
     (if prefix d s then
        (case drop (length d) s of
           [] \<Rightarrow> None
         | c # cs \<Rightarrow> if isLineTerminator c then None else lazy_capture d [c] cs)
      else None)"

lemma lazy_capture_length:
  "lazy_capture d acc s = Some (cap, rest) \<Longrightarrow> length rest \<le> length s"
  by (induction d acc s rule: lazy_capture.induct) (auto split: if_splits)

lemma match_delim_length:
  "match_delim d s = Some (cap, rest) \<Longrightarrow> length rest < length s"
proof -
  assume m: "match_delim d s = Some (cap, rest)"
  then obtain c cs where dr: "drop (length d) s = c # cs"
    and lc: "lazy_capture d [c] cs = Some (cap, rest)"
    by (auto simp: match_delim_def split: if_splits list.splits)
  have "length rest \<le> length cs" using lc by (rule lazy_capture_length)
  moreover have "length cs < length s"
    using arg_cong [OF dr, of length] by simp
  ultimately show ?thesis by simp
qed

text \<open>
  \<^verbatim>\<open>s.replace(/d(.+?)d/g, opn + '$1' + cls)\<close>: the leftmost match is replaced and the
  search goes on after it; a character where no match starts is copied.
\<close>

function replace_delim :: "jsstring \<Rightarrow> jsstring \<Rightarrow> jsstring \<Rightarrow> jsstring \<Rightarrow> jsstring" where
  "replace_delim d opn cls [] = []"
| "replace_delim d opn cls (c # cs) =
     (case match_delim d (c # cs) of
        Some (cap, rest) \<Rightarrow> opn @ cap @ cls @ replace_delim d opn cls rest
      | None \<Rightarrow> c # replace_delim d opn cls cs)"
  by pat_completeness auto
termination
  by (relation "measure (\<lambda>(d, opn, cls, s). length s)")
     (auto dest: match_delim_length)

definition inline_styles :: "jsstring \<Rightarrow> jsstring" where
  "inline_styles l =
     replace_delim (js ''`'') (js ''<code>'') (js ''</code>'')
       (replace_delim (js ''*'') (js ''<em>'') (js ''</em>'')
         (replace_delim (js ''**'') (js ''<strong>'') (js ''</strong>'') l))"

definition renderLine :: "jsstring \<Rightarrow> jsstring" where
  "renderLine line =
     (let l = esc line in
      if heading_test 3 line then js ''<h3>'' @ esc (heading_strip 3 line) @ js ''</h3>''
      else if heading_test 2 line then js ''<h2>'' @ esc (heading_strip 2 line) @ js ''</h2>''
      else if heading_test 1 line then js ''<h1>'' @ esc (heading_strip 1 line) @ js ''</h1>''
      else if length (trim l) = 0 then js ''<br/>''
      else js ''<p>'' @ inline_styles l @ js ''</p>'')"

definition renderBasicMarkdown :: "jsstring \<Rightarrow> jsstring" where
  "renderBasicMarkdown text = join_lines (map renderLine (split_lines text))"
section \<open>The persistence gateway\<close>

text \<open>
  A parsed JSON value. A number of JavaScript is an IEEE double; the type \<open>'n\<close> stands
  for its representation, which \<^verbatim>\<open>loadNotes\<close> never looks at. An object is the list
  of its members.
\<close>

datatype 'n json =
    JNull
  | JBool bool
  | JNum 'n
  | JStr jsstring
  | JArr "'n json list"
  | JObj "(jsstring \<times> 'n json) list"

datatype js_error = SecurityError | ReferenceError | SyntaxError

text \<open>
  \<^verbatim>\<open>loadNotes\<close> reads its environment twice: \<^verbatim>\<open>localStorage.getItem(STORAGE_KEY)\<close>
  throws (\<open>Inl\<close>), or returns \<^verbatim>\<open>null\<close> for an absent key (\<open>Inr None\<close>) or the stored
  string; \<^verbatim>\<open>JSON.parse\<close>, a function of the platform and a parameter here, throws
  or returns the parsed value. \<open>loadNotes_try\<close> is the body of the \<^verbatim>\<open>try\<close> block:
  it throws, returns a value (\<open>Inr (Some xs)\<close>), or runs to its end without returning
  (\<open>Inr None\<close>). \<open>loadNotes\<close> adds the empty \<^verbatim>\<open>catch\<close> and the final
  \<^verbatim>\<open>return []\<close>; its own result is an error or a value.
\<close>

definition loadNotes_try ::
  "(jsstring \<Rightarrow> js_error + 'n json) \<Rightarrow> (js_error + jsstring option)
     \<Rightarrow> js_error + 'n json list option" where
  "loadNotes_try JSON_parse getItem =
     (case getItem of
        Inl e \<Rightarrow> Inl e
      | Inr None \<Rightarrow> Inr (Some [])
      | Inr (Some raw) \<Rightarrow>
          if raw = [] then Inr (Some [])
          else (case JSON_parse raw of
                  Inl e \<Rightarrow> Inl e
                | Inr (JArr xs) \<Rightarrow> Inr (Some xs)
                | Inr _ \<Rightarrow> Inr None))"

definition loadNotes ::
  "(jsstring \<Rightarrow> js_error + 'n json) \<Rightarrow> (js_error + jsstring option)
     \<Rightarrow> js_error + 'n json list" where
  "loadNotes JSON_parse getItem =
     (case loadNotes_try JSON_parse getItem of
        Inl e \<Rightarrow> Inr []
      | Inr (Some xs) \<Rightarrow> Inr xs
      | Inr None \<Rightarrow> Inr [])"


section \<open>The note store\<close>

text \<open>
  A note is a JavaScript object with the seven properties that \<^verbatim>\<open>handleNewNote\<close>
  writes. A property other than \<^verbatim>\<open>id\<close> may be absent (\<open>None\<close>), as in a partial
  payload. A timestamp is kept as its time value in milliseconds: the program writes
  every timestamp with \<^verbatim>\<open>new Date().toISOString()\<close> and reads it back with
  \<^verbatim>\<open>new Date(s)\<close>, which returns the time value that was written.
  \<^verbatim>\<open>color\<close> is \<^verbatim>\<open>null\<close> (\<open>Some None\<close>) or a string.
\<close>

record Note =
  id' :: jsstring
  title :: "jsstring option"
  content :: "jsstring option"
  createdAt :: "int option"
  updatedAt :: "int option"
  pinned :: "bool option"
  color :: "jsstring option option"

record app_state =
  "notes" :: "Note list"
  activeId :: "jsstring option"
  search :: jsstring

text \<open>\<^verbatim>\<open>notes.find((n) => n.id === activeId) || null\<close>.\<close>

definition activeNote :: "app_state \<Rightarrow> Note option" where
  "activeNote st =
     (case activeId st of
        None \<Rightarrow> None
      | Some a \<Rightarrow> find (\<lambda>n. id' n = a) (notes st))"

text \<open>
  \<^verbatim>\<open>handleNewNote\<close>; \<open>uid\<close> is the result of \<^verbatim>\<open>uid()\<close>, and \<open>created\<close> and
  \<open>updated\<close> are the two readings of the clock.
\<close>

definition handleNewNote :: "jsstring \<Rightarrow> int \<Rightarrow> int \<Rightarrow> app_state \<Rightarrow> app_state" where
  "handleNewNote uid created updated st =
     (let n = \<lparr>id' = uid, title = Some [], content = Some [], createdAt = Some created,
                updatedAt = Some updated, pinned = Some False, color = Some None\<rparr>
      in st\<lparr>notes := n # notes st, activeId := Some uid\<rparr>)"

text \<open>
  \<^verbatim>\<open>updateNote\<close>, as the function passed to \<^verbatim>\<open>setNotes\<close>; \<open>now\<close> is the reading of
  the clock, \<^verbatim>\<open>new Date().toISOString()\<close>.
\<close>

definition updateNote :: "int \<Rightarrow> Note \<Rightarrow> Note list \<Rightarrow> Note list" where
  "updateNote now next prev =
     map (\<lambda>n. if id' n = id' next then next\<lparr>updatedAt := Some now\<rparr> else n) prev"

text \<open>
  The callers of \<^verbatim>\<open>updateNote\<close>: the editor's \<^verbatim>\<open>handleTitle\<close> and
  \<^verbatim>\<open>handleContent\<close>, which exist only while a note is active, and
  \<^verbatim>\<open>handleTogglePin\<close>. Each passes a copy of the active note with one property
  replaced.
\<close>

definition handleTitle :: "int \<Rightarrow> jsstring \<Rightarrow> app_state \<Rightarrow> app_state" where
  "handleTitle now v st =
     (case activeNote st of
        None \<Rightarrow> st
      | Some note \<Rightarrow> st\<lparr>notes := updateNote now (note\<lparr>title := Some v\<rparr>) (notes st)\<rparr>)"

definition handleContent :: "int \<Rightarrow> jsstring \<Rightarrow> app_state \<Rightarrow> app_state" where
  "handleContent now v st =
     (case activeNote st of
        None \<Rightarrow> st
      | Some note \<Rightarrow> st\<lparr>notes := updateNote now (note\<lparr>content := Some v\<rparr>) (notes st)\<rparr>)"

definition handleTogglePin :: "int \<Rightarrow> app_state \<Rightarrow> app_state" where
  "handleTogglePin now st =
     (case activeNote st of
        None \<Rightarrow> st
      | Some a \<Rightarrow>
          st\<lparr>notes := updateNote now (a\<lparr>pinned := Some (pinned a \<noteq> Some True)\<rparr>) (notes st)\<rparr>)"

text \<open>
  \<^verbatim>\<open>Array.prototype.sort\<close> with a comparator. The comparator returns a number or
  \<^verbatim>\<open>NaN\<close> (\<open>None\<close>), which the sort reads as \<open>0\<close>. The sort is stable, as
  ECMAScript 2019 requires: an element moves behind a later one only when the
  comparator puts it strictly after. For a consistent comparator the standard fixes the
  result, and \<open>array_sort\<close> computes it; for an inconsistent one (a comparator that
  returns \<^verbatim>\<open>NaN\<close> for some pairs only) the standard leaves the order to the
  implementation, and \<open>array_sort\<close> is one such order.
\<close>

definition sort_compare :: "('a \<Rightarrow> 'a \<Rightarrow> int option) \<Rightarrow> 'a \<Rightarrow> 'a \<Rightarrow> int" where
  "sort_compare cmp a b = (case cmp a b of None \<Rightarrow> 0 | Some v \<Rightarrow> v)"

fun insert_sorted :: "('a \<Rightarrow> 'a \<Rightarrow> int option) \<Rightarrow> 'a \<Rightarrow> 'a list \<Rightarrow> 'a list" where
  "insert_sorted cmp x [] = [x]"
| "insert_sorted cmp x (y # ys) =
     (if sort_compare cmp x y > 0 then y # insert_sorted cmp x ys else x # y # ys)"

definition array_sort :: "('a \<Rightarrow> 'a \<Rightarrow> int option) \<Rightarrow> 'a list \<Rightarrow> 'a list" where
  "array_sort cmp xs = foldr (insert_sorted cmp) xs []"

text \<open>
  \<^verbatim>\<open>(a, b) => new Date(b.updatedAt) - new Date(a.updatedAt)\<close>; the date of an absent
  property is invalid and the difference is \<^verbatim>\<open>NaN\<close>.
\<close>

definition sortByUpdated :: "Note \<Rightarrow> Note \<Rightarrow> int option" where
  "sortByUpdated a b =
     (case (updatedAt b, updatedAt a) of
        (Some tb, Some ta) \<Rightarrow> Some (tb - ta)
      | _ \<Rightarrow> None)"

text \<open>The list \<^verbatim>\<open>sorted\<close> of \<^verbatim>\<open>Sidebar\<close>.\<close>

definition Sidebar_sorted :: "Note list \<Rightarrow> Note list" where
  "Sidebar_sorted ns =
     (let pinned_notes = filter (\<lambda>n. pinned n = Some True) ns;
          others = filter (\<lambda>n. \<not> pinned n = Some True) ns
      in array_sort sortByUpdated pinned_notes @ array_sort sortByUpdated others)"

text \<open>
  \<^verbatim>\<open>filteredNotes\<close>. \<^verbatim>\<open>String.prototype.toLowerCase\<close> follows the Unicode case
  mappings and is a parameter. \<open>or_empty\<close> is \<^verbatim>\<open>(s || '')\<close>.
\<close>

definition or_empty :: "jsstring option \<Rightarrow> jsstring" where
  "or_empty s = (case s of None \<Rightarrow> [] | Some t \<Rightarrow> t)"

definition filteredNotes :: "(jsstring \<Rightarrow> jsstring) \<Rightarrow> jsstring \<Rightarrow> Note list \<Rightarrow> Note list" where
  "filteredNotes toLowerCase srch ns =
     (let q = toLowerCase (trim srch) in
      if q = [] then ns
      else filter (\<lambda>n.
             let t = toLowerCase (or_empty (title n));
                 c = toLowerCase (or_empty (content n))
             in js_includes t q \<or> js_includes c q) ns)"

text \<open>What the sidebar shows: \<^verbatim>\<open><Sidebar notes={filteredNotes} ... />\<close>.\<close>

definition visibleNotes :: "(jsstring \<Rightarrow> jsstring) \<Rightarrow> app_state \<Rightarrow> Note list" where
  "visibleNotes toLowerCase st = Sidebar_sorted (filteredNotes toLowerCase (search st) (notes st))"

text \<open>
  \<^verbatim>\<open>handleDeleteNote\<close>; \<open>ok\<close> is the answer of \<^verbatim>\<open>window.confirm\<close>.
  \<^verbatim>\<open>remaining.sort(...)[0]?.id || null\<close> is \<^verbatim>\<open>null\<close> for an empty list and for an
  empty id.
\<close>

definition handleDeleteNote :: "bool \<Rightarrow> app_state \<Rightarrow> app_state" where
  "handleDeleteNote ok st =
     (case activeNote st of
        None \<Rightarrow> st
      | Some a \<Rightarrow>
          if \<not> ok then st
          else
            let remaining = filter (\<lambda>n. id' n \<noteq> id' a) (notes st);
                nextActive =
                  (case array_sort sortByUpdated remaining of
                     [] \<Rightarrow> None
                   | n # _ \<Rightarrow> if id' n = [] then None else Some (id' n))
            in st\<lparr>notes := filter (\<lambda>n. id' n \<noteq> id' a) (notes st),
                  activeId := nextActive\<rparr>)"

text \<open>\<^verbatim>\<open>handleSelectNote = (id) => setActiveId(id)\<close>.\<close>

definition handleSelectNote :: "jsstring \<Rightarrow> app_state \<Rightarrow> app_state" where
  "handleSelectNote i st = st\<lparr>activeId := Some i\<rparr>"

section \<open>The write coalescer\<close>

text \<open>
  \<^verbatim>\<open>useDebouncedCallback\<close> works on the timers of the browser. The state holds the
  clock in milliseconds, the timers that are set and have neither fired nor been
  cleared (handle, time due, argument of the callback), the next handle
  (\<^verbatim>\<open>setTimeout\<close> returns a fresh integer greater than zero),
  \<^verbatim>\<open>timeoutRef.current\<close> (\<open>None\<close> is \<^verbatim>\<open>null\<close>), and the arguments of the calls of
  \<^verbatim>\<open>memoCb\<close>, which is \<^verbatim>\<open>saveNotes\<close>, in the order of the calls.
\<close>

record 'a timer_env =
  clock :: nat
  pending :: "(nat \<times> nat \<times> 'a) list"
  next_handle :: nat
  timeoutRef :: "nat option"
  saved :: "'a list"

definition setTimeout :: "nat \<Rightarrow> 'a \<Rightarrow> 'a timer_env \<Rightarrow> nat \<times> 'a timer_env" where
  "setTimeout delay arg env =
     (next_handle env,
      env\<lparr>pending := pending env @ [(next_handle env, clock env + delay, arg)],
          next_handle := next_handle env + 1\<rparr>)"

text \<open>\<^verbatim>\<open>clearTimeout(null)\<close> and the clearing of a handle that is not set do nothing.\<close>

definition clearTimeout :: "nat option \<Rightarrow> 'a timer_env \<Rightarrow> 'a timer_env" where
  "clearTimeout ref env =
     (case ref of
        None \<Rightarrow> env
      | Some h \<Rightarrow> env\<lparr>pending := filter (\<lambda>(h', due, arg). h' \<noteq> h) (pending env)\<rparr>)"

text \<open>
  The function \<^verbatim>\<open>debounced\<close>: \<^verbatim>\<open>if (timeoutRef.current) clearTimeout(...)\<close>, where
  \<^verbatim>\<open>null\<close> and \<open>0\<close> are falsy, then \<^verbatim>\<open>timeoutRef.current = setTimeout(...)\<close>.
\<close>

definition debounced :: "nat \<Rightarrow> 'a \<Rightarrow> 'a timer_env \<Rightarrow> 'a timer_env" where
  "debounced delay arg env =
     (let env1 = (if timeoutRef env \<noteq> None \<and> timeoutRef env \<noteq> Some 0
                  then clearTimeout (timeoutRef env) env else env);
          (h, env2) = setTimeout delay arg env1
      in env2\<lparr>timeoutRef := Some h\<rparr>)"

text \<open>The cleanup of the effect, run when the component goes away.\<close>

definition teardown :: "'a timer_env \<Rightarrow> 'a timer_env" where
  "teardown env = clearTimeout (timeoutRef env) env"

text \<open>
  \<open>d\<close> milliseconds pass with no call from the program: the timers that are due by
  then fire in the order of their due times, each calling \<^verbatim>\<open>saveNotes\<close> with its
  argument. A browser may fire a timer late, never early; the statements below speak
  of calls made before the pending timer is due, which clear it whenever it would
  have fired.
\<close>

definition elapse :: "nat \<Rightarrow> 'a timer_env \<Rightarrow> 'a timer_env" where
  "elapse d env =
     (let now = clock env + d;
          due_timers = sort_key (\<lambda>(h, due, arg). due)
                         (filter (\<lambda>(h, due, arg). due \<le> now) (pending env))
      in env\<lparr>clock := now,
              pending := filter (\<lambda>(h, due, arg). \<not> due \<le> now) (pending env),
              saved := saved env @ map (\<lambda>(h, due, arg). arg) due_timers\<rparr>)"

text \<open>
  The effect \<^verbatim>\<open>useEffect(() => { debouncedSave(notes) }, [notes, debouncedSave])\<close>
  calls \<^verbatim>\<open>debounced\<close> after every change of the notes. \<open>burst\<close> runs a list of such
  calls, each with the time that passed since the call before it.
\<close>

fun burst :: "nat \<Rightarrow> (nat \<times> 'a) list \<Rightarrow> 'a timer_env \<Rightarrow> 'a timer_env" where
  "burst delay [] env = env"
| "burst delay ((gap, arg) # calls) env = burst delay calls (debounced delay arg (elapse gap env))"

section \<open>Notions used in the statements\<close>

subsection \<open>Markup\<close>

text \<open>
  \<open>markup_tags\<close> lists every tag that occurs in a string literal of
  \<^verbatim>\<open>renderBasicMarkdown\<close>. \<open>safe_markup s\<close> holds when \<open>s\<close> is a sequence of such tags
  and of characters other than \<^verbatim>\<open><\<close> and \<^verbatim>\<open>>\<close>. A delimiter of an inline pattern
  is \<open>delim_ok\<close> when none of its characters occurs in a tag. \<open>esc_char\<close> is what
  \<open>esc\<close> does to one character.
\<close>

definition markup_tags :: "jsstring list" where
  "markup_tags = map js [''<h1>'', ''</h1>'', ''<h2>'', ''</h2>'', ''<h3>'', ''</h3>'',
     ''<br/>'', ''<p>'', ''</p>'', ''<strong>'', ''</strong>'', ''<em>'', ''</em>'',
     ''<code>'', ''</code>'']"

inductive safe_markup :: "jsstring \<Rightarrow> bool" where
  Nil: "safe_markup []"
| Char: "c \<noteq> 0x3C \<Longrightarrow> c \<noteq> 0x3E \<Longrightarrow> safe_markup s \<Longrightarrow> safe_markup (c # s)"
| Tag: "t \<in> set markup_tags \<Longrightarrow> safe_markup s \<Longrightarrow> safe_markup (t @ s)"

definition delim_ok :: "jsstring \<Rightarrow> bool" where
  "delim_ok d = (d \<noteq> [] \<and> (\<forall>x\<in>set d. \<forall>t\<in>set markup_tags. x \<notin> set t))"

definition esc_char :: "jschar \<Rightarrow> jsstring" where
  "esc_char c = (if c = 0x26 then js ''&amp;'' else if c = 0x3C then js ''&lt;''
                 else if c = 0x3E then js ''&gt;'' else [c])"

text \<open>
  \<open>style_escaped_line\<close> and \<open>render_escape_first\<close> follow the wording of the
  specification, not the source: the line is escaped first, and the heading test, the
  stripping of the heading prefix and the inline patterns all work on the escaped line.
\<close>

definition style_escaped_line :: "jsstring \<Rightarrow> jsstring" where
  "style_escaped_line l =
     (if heading_test 3 l then js ''<h3>'' @ heading_strip 3 l @ js ''</h3>''
      else if heading_test 2 l then js ''<h2>'' @ heading_strip 2 l @ js ''</h2>''
      else if heading_test 1 l then js ''<h1>'' @ heading_strip 1 l @ js ''</h1>''
      else if trim l = [] then js ''<br/>''
      else js ''<p>'' @ inline_styles l @ js ''</p>'')"

definition render_escape_first :: "jsstring \<Rightarrow> jsstring" where
  "render_escape_first text = join_lines (map (\<lambda>line. style_escaped_line (esc line)) (split_lines text))"

subsection \<open>Notes\<close>

text \<open>
  \<open>timestamped ns\<close>: every note of \<open>ns\<close> has its \<^verbatim>\<open>updatedAt\<close>, as every note
  written by \<^verbatim>\<open>handleNewNote\<close> and \<^verbatim>\<open>updateNote\<close> has. \<open>time_key\<close> orders notes
  by descending \<^verbatim>\<open>updatedAt\<close>.
\<close>

definition timestamped :: "Note list \<Rightarrow> bool" where
  "timestamped ns = (\<forall>n\<in>set ns. updatedAt n \<noteq> None)"

definition time_key :: "Note \<Rightarrow> int" where
  "time_key n = - the (updatedAt n)"

text \<open>
  \<open>note_matches\<close> follows the wording of the specification: the case-folded title or
  the case-folded content contains the trimmed, case-folded query.
  \<open>most_recent ns\<close> is the first note of \<open>ns\<close>, in the order of the list, whose
  \<^verbatim>\<open>updatedAt\<close> is the greatest.
\<close>

definition note_matches :: "(jsstring \<Rightarrow> jsstring) \<Rightarrow> jsstring \<Rightarrow> Note \<Rightarrow> bool" where
  "note_matches toLowerCase srch n =
     (js_includes (toLowerCase (or_empty (title n))) (toLowerCase (trim srch))
      \<or> js_includes (toLowerCase (or_empty (content n))) (toLowerCase (trim srch)))"

definition most_recent :: "Note list \<Rightarrow> Note option" where
  "most_recent ns = find (\<lambda>n. \<forall>k\<in>set ns. the (updatedAt k) \<le> the (updatedAt n)) ns"

text \<open>
  The examples: \<^verbatim>\<open>toLowerCase\<close> on ASCII strings, the notes A, B, C and X, Y of the
  specification, a stored note and a payload that names only \<^verbatim>\<open>id\<close> and
  \<^verbatim>\<open>title\<close>.
\<close>

definition ascii_toLowerCase :: "jsstring \<Rightarrow> jsstring" where
  "ascii_toLowerCase s = map (\<lambda>c. if 0x41 \<le> c \<and> c \<le> 0x5A then c + 0x20 else c) s"

definition note_A :: Note where
  "note_A = \<lparr>id' = js ''A'', title = Some (js ''first''), content = Some (js ''some Foo here''),
     createdAt = Some 1, updatedAt = Some 1, pinned = Some True, color = Some None\<rparr>"

definition note_B :: Note where
  "note_B = \<lparr>id' = js ''B'', title = Some (js ''second''), content = Some (js ''bar''),
     createdAt = Some 2, updatedAt = Some 2, pinned = Some True, color = Some None\<rparr>"

definition note_C :: Note where
  "note_C = \<lparr>id' = js ''C'', title = Some (js ''third''), content = Some [],
     createdAt = Some 3, updatedAt = Some 3, pinned = Some False, color = Some None\<rparr>"

definition note_X :: Note where
  "note_X = \<lparr>id' = js ''X'', title = Some [], content = Some [],
     createdAt = Some 5, updatedAt = Some 5, pinned = Some False, color = Some None\<rparr>"

definition note_Y :: Note where
  "note_Y = \<lparr>id' = js ''Y'', title = Some [], content = Some [],
     createdAt = Some 9, updatedAt = Some 9, pinned = Some False, color = Some None\<rparr>"

definition stored_note :: Note where
  "stored_note = \<lparr>id' = js ''1'', title = Some (js ''t''), content = Some (js ''c''),
     createdAt = Some 1, updatedAt = Some 5, pinned = Some False, color = Some None\<rparr>"

definition partial_payload :: Note where
  "partial_payload = \<lparr>id' = js ''1'', title = Some (js ''x''), content = None,
     createdAt = None, updatedAt = None, pinned = None, color = None\<rparr>"

subsection \<open>Timers\<close>

text \<open>
  \<open>idle\<close>: no timer is set. \<open>armed delay arg env\<close>: exactly one timer is set, it is
  the one \<^verbatim>\<open>timeoutRef\<close> holds, it carries \<open>arg\<close> and it was set just now.
\<close>

definition idle :: "'a timer_env \<Rightarrow> bool" where
  "idle env = (pending env = [] \<and> 0 < next_handle env)"

definition armed :: "nat \<Rightarrow> 'a \<Rightarrow> 'a timer_env \<Rightarrow> bool" where
  "armed delay arg env =
     (\<exists>h. pending env = [(h, clock env + delay, arg)] \<and> timeoutRef env = Some h
           \<and> 0 < h \<and> h < next_handle env)"

text \<open>The timers when the component has just been mounted.\<close>

definition mounted_env :: "jsstring timer_env" where
  "mounted_env = \<lparr>clock = 0, pending = [], next_handle = 1, timeoutRef = None, saved = []\<rparr>"


section \<open>Properties of the renderer\<close>

lemma replace_char_Cons:
  "replace_char c r (x # xs) = (if x = c then r else [x]) @ replace_char c r xs"
  by (simp add: replace_char_def)

lemma replace_char_append:
  "replace_char c r (xs @ ys) = replace_char c r xs @ replace_char c r ys"
  by (simp add: replace_char_def)

lemma replace_char_Nil: "replace_char c r [] = []"
  by (simp add: replace_char_def)

lemma esc_Nil: "esc [] = []"
  by (simp add: esc_def replace_char_Nil)

lemma esc_Cons: "esc (c # cs) = esc_char c @ esc cs"
  by (simp add: esc_def esc_char_def replace_char_Cons replace_char_append replace_char_Nil js_def)

lemma esc_append: "esc (xs @ ys) = esc xs @ esc ys"
  by (induction xs) (simp_all add: esc_Nil esc_Cons)

lemma esc_char_no_angle: "x \<in> set (esc_char c) \<Longrightarrow> x \<noteq> 0x3C \<and> x \<noteq> 0x3E"
  by (auto simp: esc_char_def js_def split: if_splits)

lemma esc_no_angle: "x \<in> set (esc s) \<Longrightarrow> x \<noteq> 0x3C \<and> x \<noteq> 0x3E"
  by (induction s) (auto simp: esc_Nil esc_Cons dest: esc_char_no_angle)

lemma safe_plain: "(\<And>x. x \<in> set s \<Longrightarrow> x \<noteq> 0x3C \<and> x \<noteq> 0x3E) \<Longrightarrow> safe_markup s"
  by (induction s) (auto intro: safe_markup.intros)

lemma safe_esc: "safe_markup (esc s)"
  by (rule safe_plain) (rule esc_no_angle)

lemma safe_append: "safe_markup s \<Longrightarrow> safe_markup t \<Longrightarrow> safe_markup (s @ t)"
  by (induction rule: safe_markup.induct) (auto intro: safe_markup.intros)

lemma safe_tag: "t \<in> set markup_tags \<Longrightarrow> safe_markup t"
  using safe_markup.Tag [of t "[]"] by (simp add: safe_markup.Nil)

lemma delim_ok_strong: "delim_ok (js ''**'')"
  and delim_ok_em: "delim_ok (js ''*'')"
  and delim_ok_code: "delim_ok (js ''`'')"
  by (simp_all add: delim_ok_def markup_tags_def js_def)

lemma tag_nonempty: "t \<in> set markup_tags \<Longrightarrow> t \<noteq> []"
  by (auto simp: markup_tags_def js_def)

lemma safe_split:
  "safe_markup s \<Longrightarrow> s = u @ x # v \<Longrightarrow> \<forall>t\<in>set markup_tags. x \<notin> set t
     \<Longrightarrow> safe_markup u \<and> safe_markup v"
proof (induction s arbitrary: u rule: safe_markup.induct)
  case Nil
  then show ?case by simp
next
  case (Char c s)
  show ?case
  proof (cases u)
    case Nil
    with Char show ?thesis by (simp add: safe_markup.Nil)
  next
    case (Cons a u')
    with Char.prems have "s = u' @ x # v" and "a = c" by simp_all
    with Char.IH [of u'] Char.prems Char.hyps Cons show ?thesis
      by (auto intro: safe_markup.Char)
  qed
next
  case (Tag t s)
  from Tag.prems(1) have "t @ s = u @ x # v" .
  then obtain us where us: "(t = u @ us \<and> us @ s = x # v) \<or> (t @ us = u \<and> s = us @ x # v)"
    by (auto simp: append_eq_append_conv2)
  then consider w where "u = t @ w" "s = w @ x # v"
    | w where "t = u @ w" "w @ s = x # v" "w \<noteq> []"
    by (cases "us = []") auto
  then show ?case
  proof cases
    case 1
    with Tag.IH [of w] Tag.prems Tag.hyps show ?thesis
      by (auto intro: safe_markup.Tag)
  next
    case 2
    then have "x \<in> set t" by (cases w) auto
    with Tag.hyps Tag.prems show ?thesis by blast
  qed
qed

lemma safe_drop_delim:
  "safe_markup (d @ v) \<Longrightarrow> \<forall>x\<in>set d. \<forall>t\<in>set markup_tags. x \<notin> set t \<Longrightarrow> safe_markup v"
proof (induction d)
  case Nil
  then show ?case by simp
next
  case (Cons a d)
  from safe_split [OF Cons.prems(1), of "[]" a "d @ v"] Cons.prems(2)
  have "safe_markup (d @ v)" by simp
  with Cons show ?case by simp
qed

lemma safe_split_delim:
  assumes "safe_markup (u @ d @ v)" and "delim_ok d"
  shows "safe_markup u \<and> safe_markup v"
proof -
  from assms(2) obtain x d' where d: "d = x # d'" by (cases d) (auto simp: delim_ok_def)
  from assms(2) have nt: "\<forall>x\<in>set d. \<forall>t\<in>set markup_tags. x \<notin> set t"
    by (simp add: delim_ok_def)
  from safe_split [of "u @ d @ v" u x "d' @ v"] assms(1) d nt
  have "safe_markup u" and "safe_markup (d' @ v)" by auto
  moreover from nt d have "\<forall>x\<in>set d'. \<forall>t\<in>set markup_tags. x \<notin> set t" by simp
  ultimately show ?thesis using safe_drop_delim by blast
qed

lemma lazy_capture_shape:
  "lazy_capture d acc s = Some (cap, rest) \<Longrightarrow> \<exists>m. cap = acc @ m \<and> s = m @ d @ rest"
proof (induction d acc s rule: lazy_capture.induct)
  case (1 d acc)
  then show ?case by (auto split: if_splits)
next
  case (2 d acc c cs)
  show ?case
  proof (cases "prefix d (c # cs)")
    case True
    with "2.prems" have "cap = acc" "rest = drop (length d) (c # cs)" by simp_all
    moreover from True have "c # cs = d @ drop (length d) (c # cs)"
      by (metis append_eq_conv_conj prefix_def)
    ultimately show ?thesis by auto
  next
    case False
    with "2.prems" have nl: "\<not> isLineTerminator c"
      and rec: "lazy_capture d (acc @ [c]) cs = Some (cap, rest)"
      by (auto split: if_splits)
    from "2.IH" [OF False nl rec] obtain m where "cap = (acc @ [c]) @ m" "cs = m @ d @ rest"
      by blast
    then have "cap = acc @ (c # m)" "c # cs = (c # m) @ d @ rest" by simp_all
    then show ?thesis by blast
  qed
qed

lemma match_delim_shape:
  assumes "match_delim d s = Some (cap, rest)"
  shows "s = d @ cap @ d @ rest \<and> cap \<noteq> []"
proof -
  from assms have p: "prefix d s" by (auto simp: match_delim_def split: if_splits)
  from assms p obtain c cs where dr: "drop (length d) s = c # cs"
    and lc: "lazy_capture d [c] cs = Some (cap, rest)"
    by (auto simp: match_delim_def split: if_splits list.splits)
  from lazy_capture_shape [OF lc] obtain m where m: "cap = [c] @ m" "cs = m @ d @ rest"
    by blast
  from p have "s = d @ drop (length d) s" by (metis append_eq_conv_conj prefix_def)
  with dr m show ?thesis by simp
qed

lemma match_delim_hd:
  "match_delim d (c # cs) = Some r \<Longrightarrow> d \<noteq> [] \<Longrightarrow> c \<in> set d"
  by (cases d) (auto simp: match_delim_def split: if_splits)

lemma replace_delim_safe_gen:
  assumes d: "delim_ok d" and o: "opn \<in> set markup_tags" and c: "cls \<in> set markup_tags"
  shows "t \<in> set markup_tags \<Longrightarrow> suffix p t \<Longrightarrow> safe_markup s
     \<Longrightarrow> \<exists>r. replace_delim d opn cls (p @ s) = p @ r \<and> safe_markup r"
proof (induction "length (p @ s)" arbitrary: p s t rule: less_induct)
  case less
  show ?case
  proof (cases p)
    case (Cons a p')
    from less.prems(2) Cons have "a \<in> set t" by (auto simp: suffix_def)
    with d less.prems(1) have "a \<notin> set d" by (auto simp: delim_ok_def)
    with d have nm: "match_delim d (a # p' @ s) = None"
      using match_delim_hd [of d a "p' @ s"] by (cases "match_delim d (a # p' @ s)") (auto simp: delim_ok_def)
    from less.prems(2) Cons have "suffix p' t" by (metis suffix_ConsD)
    from less.hyps [of p' s t] Cons less.prems(1) this less.prems(3)
    obtain r where "replace_delim d opn cls (p' @ s) = p' @ r" "safe_markup r" by auto
    with nm Cons show ?thesis by simp
  next
    case Nil
    note pnil = Nil
    from less.prems(3) show ?thesis
    proof (cases rule: safe_markup.cases)
      case Nil
      with pnil show ?thesis by (simp add: safe_markup.Nil)
    next
      case (Char a s0)
      show ?thesis
      proof (cases "match_delim d (a # s0)")
        case None
        from less.hyps [of "[]" s0 t] pnil Char less.prems(1)
        obtain r where "replace_delim d opn cls s0 = r" "safe_markup r" by auto
        with None Char pnil show ?thesis by (auto intro: safe_markup.Char)
      next
        case (Some cr)
        obtain cap rest where cr: "cr = (cap, rest)" by (cases cr)
        from match_delim_shape [of d "a # s0" cap rest] Some cr
        have sh: "a # s0 = d @ cap @ d @ rest" by simp
        from match_delim_length [of d "a # s0" cap rest] Some cr
        have len: "length rest < length (a # s0)" by simp
        from less.prems(3) Char sh have "safe_markup (d @ cap @ d @ rest)" by simp
        from safe_split_delim [of "[]" d "cap @ d @ rest"] this d
        have "safe_markup (cap @ d @ rest)" by simp
        from safe_split_delim [OF this d] have sc: "safe_markup cap" and sr: "safe_markup rest"
          by simp_all
        from less.hyps [of "[]" rest t] len pnil Char less.prems(1) sr
        have "safe_markup (replace_delim d opn cls rest)" by auto
        then have "safe_markup (cls @ replace_delim d opn cls rest)"
          using safe_tag [OF c] by (simp add: safe_append)
        then have "safe_markup (cap @ cls @ replace_delim d opn cls rest)"
          using sc by (simp add: safe_append)
        then have "safe_markup (opn @ cap @ cls @ replace_delim d opn cls rest)"
          using safe_tag [OF o] by (simp add: safe_append)
        with Some cr Char pnil show ?thesis by simp
      qed
    next
      case (Tag t' s0)
      from tag_nonempty [OF Tag(2)] obtain a t'' where t': "t' = a # t''" by (cases t') auto
      then have "a \<in> set t'" by simp
      with Tag(2) d have "a \<notin> set d" unfolding delim_ok_def by blast
      with d have nm: "match_delim d (a # t'' @ s0) = None"
        using match_delim_hd [of d a "t'' @ s0"]
        by (cases "match_delim d (a # t'' @ s0)") (auto simp: delim_ok_def)
      have "suffix t'' t'" using t' by (simp add: suffix_def) 
      from less.hyps [of t'' s0 t'] pnil Tag t' this
      obtain r where r: "replace_delim d opn cls (t'' @ s0) = t'' @ r" "safe_markup r" by auto
      have "safe_markup (t' @ r)" using Tag(2) r(2) by (rule safe_markup.Tag)
      with nm r t' Tag pnil show ?thesis by simp
    qed
  qed
qed

lemma replace_delim_safe:
  assumes "delim_ok d" "opn \<in> set markup_tags" "cls \<in> set markup_tags" "safe_markup s"
  shows "safe_markup (replace_delim d opn cls s)"
  using replace_delim_safe_gen [OF assms(1-3), of opn "[]" s] assms(2,4) by (simp add: suffix_def)

lemma heading_test_0: "heading_test 0 s = (case s of [] \<Rightarrow> False | c # _ \<Rightarrow> isWhiteSpace c)"
  by (simp add: heading_test_def)

lemma heading_test_Suc_Nil: "heading_test (Suc k) [] = False"
  by (simp add: heading_test_def)

lemma heading_test_Suc_Cons: "heading_test (Suc k) (c # cs) = (c = 0x23 \<and> heading_test k cs)"
  by (auto simp: heading_test_def)

lemma esc_char_hd: "\<exists>x xs. esc_char c = x # xs \<and> isWhiteSpace x = isWhiteSpace c \<and> (x = 0x23) = (c = 0x23)"
  by (simp add: esc_char_def js_def isWhiteSpace_def isLineTerminator_def)

lemma esc_char_plain: "isWhiteSpace c \<or> c = 0x23 \<Longrightarrow> esc_char c = [c]"
  by (auto simp: esc_char_def isWhiteSpace_def isLineTerminator_def)

lemma heading_test_esc: "heading_test k (esc line) = heading_test k line"
proof (induction k arbitrary: line)
  case 0
  show ?case
  proof (cases line)
    case Nil
    then show ?thesis by (simp add: esc_Nil)
  next
    case (Cons c cs)
    obtain x xs where "esc_char c = x # xs" "isWhiteSpace x = isWhiteSpace c"
      using esc_char_hd by blast
    with Cons show ?thesis by (simp add: heading_test_0 esc_Cons)
  qed
next
  case (Suc k)
  show ?case
  proof (cases line)
    case Nil
    then show ?thesis by (simp add: esc_Nil)
  next
    case (Cons c cs)
    show ?thesis
    proof (cases "c = 0x23")
      case True
      with Cons Suc show ?thesis
        by (simp add: esc_Cons esc_char_plain heading_test_Suc_Cons)
    next
      case False
      obtain x xs where "esc_char c = x # xs" "(x = 0x23) = (c = 0x23)"
        using esc_char_hd by blast
      with Cons False show ?thesis by (simp add: esc_Cons heading_test_Suc_Cons)
    qed
  qed
qed

lemma dropWhile_esc: "dropWhile isWhiteSpace (esc s) = esc (dropWhile isWhiteSpace s)"
proof (induction s)
  case Nil
  then show ?case by (simp add: esc_Nil)
next
  case (Cons c cs)
  show ?case
  proof (cases "isWhiteSpace c")
    case True
    with Cons show ?thesis by (simp add: esc_Cons esc_char_plain)
  next
    case False
    obtain x xs where "esc_char c = x # xs" "isWhiteSpace x = isWhiteSpace c"
      using esc_char_hd by blast
    with False show ?thesis by (simp add: esc_Cons)
  qed
qed

lemma drop_esc_hashes:
  "take k line = replicate k 0x23 \<Longrightarrow> drop k (esc line) = esc (drop k line)"
proof (induction k arbitrary: line)
  case 0
  then show ?case by simp
next
  case (Suc k)
  then show ?case
    by (cases line) (simp_all add: esc_Nil esc_Cons esc_char_plain)
qed

lemma heading_strip_esc: "heading_strip k (esc line) = esc (heading_strip k line)"
proof (cases "heading_test k line")
  case True
  then have "take k line = replicate k 0x23" by (simp add: heading_test_def)
  with True show ?thesis
    by (simp add: heading_strip_def heading_test_esc drop_esc_hashes dropWhile_esc)
next
  case False
  then show ?thesis by (simp add: heading_strip_def heading_test_esc)
qed

lemma renderLine_escape_first: "renderLine line = style_escaped_line (esc line)"
  by (simp add: renderLine_def style_escaped_line_def heading_test_esc heading_strip_esc Let_def)

lemma render_escape_first_eq: "renderBasicMarkdown text = render_escape_first text"
proof -
  have "renderLine = (\<lambda>line. style_escaped_line (esc line))"
    by (rule ext) (rule renderLine_escape_first)
  then show ?thesis by (simp add: renderBasicMarkdown_def render_escape_first_def)
qed

lemma markup_tags_mem:
  "js ''<h1>'' \<in> set markup_tags" "js ''</h1>'' \<in> set markup_tags"
  "js ''<h2>'' \<in> set markup_tags" "js ''</h2>'' \<in> set markup_tags"
  "js ''<h3>'' \<in> set markup_tags" "js ''</h3>'' \<in> set markup_tags"
  "js ''<br/>'' \<in> set markup_tags"
  "js ''<p>'' \<in> set markup_tags" "js ''</p>'' \<in> set markup_tags"
  "js ''<strong>'' \<in> set markup_tags" "js ''</strong>'' \<in> set markup_tags"
  "js ''<em>'' \<in> set markup_tags" "js ''</em>'' \<in> set markup_tags"
  "js ''<code>'' \<in> set markup_tags" "js ''</code>'' \<in> set markup_tags"
  by (simp_all add: markup_tags_def)

lemma safe_wrap:
  "opn \<in> set markup_tags \<Longrightarrow> cls \<in> set markup_tags \<Longrightarrow> safe_markup s
     \<Longrightarrow> safe_markup (opn @ s @ cls)"
  by (simp add: safe_append safe_tag)

lemma safe_inline_styles: "safe_markup s \<Longrightarrow> safe_markup (inline_styles s)"
  unfolding inline_styles_def
  by (intro replace_delim_safe delim_ok_strong delim_ok_em delim_ok_code markup_tags_mem)

lemma safe_renderLine: "safe_markup (renderLine line)"
  by (simp add: renderLine_def Let_def safe_wrap safe_tag safe_esc safe_inline_styles
      markup_tags_mem)

lemma safe_join_lines: "(\<And>l. l \<in> set ls \<Longrightarrow> safe_markup l) \<Longrightarrow> safe_markup (join_lines ls)"
proof (induction ls rule: join_lines.induct)
  case 1
  then show ?case by (simp add: safe_markup.Nil)
next
  case (2 l)
  then show ?case by simp
next
  case (3 l m ls)
  then have "safe_markup l" "safe_markup (join_lines (m # ls))" by simp_all
  then have "safe_markup (0x0A # join_lines (m # ls))"
    by (simp add: safe_markup.Char)
  with \<open>safe_markup l\<close> show ?case by (simp add: safe_append)
qed

lemma safe_renderBasicMarkdown: "safe_markup (renderBasicMarkdown text)"
  unfolding renderBasicMarkdown_def by (rule safe_join_lines) (auto simp: safe_renderLine)

lemma tag_shape: "t \<in> set markup_tags \<Longrightarrow> \<exists>t0. t = 0x3C # t0 \<and> 0x3C \<notin> set t0"
  by (auto simp: markup_tags_def js_def)

lemma tag_shape_end: "t \<in> set markup_tags \<Longrightarrow> \<exists>t0. t = t0 @ [0x3E] \<and> 0x3E \<notin> set t0"
  by (auto simp: markup_tags_def js_def)

lemma safe_lt_starts_tag:
  "safe_markup s \<Longrightarrow> s = u @ 0x3C # v \<Longrightarrow> \<exists>t\<in>set markup_tags. prefix t (0x3C # v)"
proof (induction s arbitrary: u rule: safe_markup.induct)
  case Nil
  then show ?case by simp
next
  case (Char c s)
  then show ?case by (cases u) auto
next
  case (Tag t s)
  from Tag.prems have "t @ s = u @ 0x3C # v" .
  then obtain us where us: "(t = u @ us \<and> us @ s = 0x3C # v) \<or> (t @ us = u \<and> s = us @ 0x3C # v)"
    by (auto simp: append_eq_append_conv2)
  then consider w where "u = t @ w" "s = w @ 0x3C # v"
    | w where "t = u @ w" "w @ s = 0x3C # v" "w \<noteq> []"
    by (cases "us = []") auto
  then show ?case
  proof cases
    case 1
    with Tag.IH [of w] show ?thesis by simp
  next
    case 2
    then obtain w' where w: "w = 0x3C # w'" by (cases w) auto
    from tag_shape [OF Tag.hyps(1)] obtain t0 where t0: "t = 0x3C # t0" "0x3C \<notin> set t0" by blast
    from 2 w t0 have "u = []" by (cases u) auto
    with 2 have "prefix t (0x3C # v)" by (metis append_Nil prefixI)
    with Tag.hyps(1) show ?thesis by blast
  qed
qed

lemma safe_gt_ends_tag:
  "safe_markup s \<Longrightarrow> s = u @ 0x3E # v \<Longrightarrow> \<exists>t\<in>set markup_tags. suffix t (u @ [0x3E])"
proof (induction s arbitrary: u rule: safe_markup.induct)
  case Nil
  then show ?case by simp
next
  case (Char c s)
  show ?case
  proof (cases u)
    case Nil
    with Char show ?thesis by simp
  next
    case (Cons a u')
    with Char.prems have "s = u' @ 0x3E # v" by simp
    from Char.IH [OF this] obtain t where "t \<in> set markup_tags" "suffix t (u' @ [0x3E])" by blast
    with Cons show ?thesis by (auto simp: suffix_Cons)
  qed
next
  case (Tag t s)
  from Tag.prems have "t @ s = u @ 0x3E # v" .
  then obtain us where us: "(t = u @ us \<and> us @ s = 0x3E # v) \<or> (t @ us = u \<and> s = us @ 0x3E # v)"
    by (auto simp: append_eq_append_conv2)
  then consider w where "u = t @ w" "s = w @ 0x3E # v"
    | w where "t = u @ w" "w @ s = 0x3E # v" "w \<noteq> []"
    by (cases "us = []") auto
  then show ?case
  proof cases
    case 1
    from Tag.IH [OF 1(2)] obtain t' where "t' \<in> set markup_tags" "suffix t' (w @ [0x3E])" by blast
    then have "suffix t' (t @ (w @ [0x3E]))" by (simp only: suffix_appendI)
    with 1 \<open>t' \<in> set markup_tags\<close> show ?thesis by auto
  next
    case 2
    then obtain w' where w: "w = 0x3E # w'" by (cases w) auto
    from tag_shape_end [OF Tag.hyps(1)] obtain t0 where t0: "t = t0 @ [0x3E]" "0x3E \<notin> set t0" by blast
    from 2 w t0 have "u @ 0x3E # w' = t0 @ [0x3E]" by simp
    with t0(2) have "w' = []"
      by (metis append_Cons append_Nil butlast.simps(2) butlast_append in_set_conv_decomp list.distinct(1) self_append_conv)
    with 2 w have "t = u @ [0x3E]" by simp
    with Tag.hyps(1) show ?thesis by auto
  qed
qed

lemma js_includes_iff: "js_includes s q \<longleftrightarrow> (\<exists>u v. s = u @ q @ v)"
proof (induction s)
  case Nil
  then show ?case by auto
next
  case (Cons c cs)
  show ?case
  proof
    assume "js_includes (c # cs) q"
    then consider "prefix q (c # cs)" | "js_includes cs q" by auto
    then show "\<exists>u v. c # cs = u @ q @ v"
    proof cases
      case 1
      then obtain v where "c # cs = q @ v" by (auto simp: prefix_def)
      then have "c # cs = [] @ q @ v" by simp
      then show ?thesis by blast
    next
      case 2
      with Cons obtain u v where "cs = u @ q @ v" by blast
      then have "c # cs = (c # u) @ q @ v" by simp
      then show ?thesis by blast
    qed
  next
    assume "\<exists>u v. c # cs = u @ q @ v"
    then obtain u v where uv: "c # cs = u @ q @ v" by blast
    show "js_includes (c # cs) q"
    proof (cases u)
      case Nil
      with uv have "prefix q (c # cs)" by (simp add: prefix_def)
      then show ?thesis by simp
    next
      case (Cons a u')
      with uv have "cs = u' @ q @ v" by simp
      with Cons.IH show ?thesis by auto
    qed
  qed
qed

lemma no_script_tag: "t \<in> set markup_tags \<Longrightarrow> \<not> prefix t (js ''<script>'' @ v)"
  by (auto simp: markup_tags_def js_def)

lemma safe_no_script: "safe_markup s \<Longrightarrow> \<not> js_includes s (js ''<script>'')"
proof
  assume s: "safe_markup s" and "js_includes s (js ''<script>'')"
  then obtain u v where "s = u @ js ''<script>'' @ v" by (auto simp: js_includes_iff)
  then have "s = u @ 0x3C # (js ''script>'' @ v)" by (simp add: js_def)
  from safe_lt_starts_tag [OF s this] obtain t where "t \<in> set markup_tags"
    "prefix t (0x3C # (js ''script>'' @ v))" by blast
  with no_script_tag [of t v] show False by (simp add: js_def)
qed

lemma render_script_example:
  "renderBasicMarkdown (js ''<script>'') = js ''<p>&lt;script&gt;</p>''"
  by code_simp

lemma render_inline_example:
  "renderBasicMarkdown (js ''**a** *b* `c`'')
     = js ''<p><strong>a</strong> <em>b</em> <code>c</code></p>''"
  by code_simp

lemma render_angle_example:
  "renderBasicMarkdown (js ''a<b'') = js ''<p>a&lt;b</p>''"
  by code_simp

text \<open>
  Claim C1. For every input, \<^verbatim>\<open>renderBasicMarkdown\<close> gives the result of escaping
  \<^verbatim>\<open>&\<close>, \<^verbatim>\<open><\<close> and \<^verbatim>\<open>>\<close> in each line first and applying the heading test, the
  stripping of the heading prefix and the inline patterns to the escaped line. Every
  \<^verbatim>\<open><\<close> of the output starts, and every \<^verbatim>\<open>>\<close> ends, one of the tags the renderer
  itself writes, so no markup of the input survives; no output contains
  \<^verbatim>\<open><script>\<close>. The input \<^verbatim>\<open><script>\<close> is rendered as an escaped paragraph, and
  \<^verbatim>\<open>**a** *b* `c`\<close> as one paragraph holding bold a, italic b and code c.
\<close>

theorem renderBasicMarkdown_escapes_first:
  "renderBasicMarkdown text = render_escape_first text
   \<and> (\<forall>u v. renderBasicMarkdown text = u @ 0x3C # v
          \<longrightarrow> (\<exists>t\<in>set markup_tags. prefix t (0x3C # v)))
   \<and> (\<forall>u v. renderBasicMarkdown text = u @ 0x3E # v
          \<longrightarrow> (\<exists>t\<in>set markup_tags. suffix t (u @ [0x3E])))
   \<and> \<not> js_includes (renderBasicMarkdown text) (js ''<script>'')
   \<and> renderBasicMarkdown (js ''<script>'') = js ''<p>&lt;script&gt;</p>''
   \<and> \<not> js_includes (renderBasicMarkdown (js ''<script>'')) (js ''<script>'')
   \<and> renderBasicMarkdown (js ''**a** *b* `c`'')
        = js ''<p><strong>a</strong> <em>b</em> <code>c</code></p>''"
  using render_escape_first_eq [of "text"]
    safe_lt_starts_tag [OF safe_renderBasicMarkdown [of "text"]]
    safe_gt_ends_tag [OF safe_renderBasicMarkdown [of "text"]]
    safe_no_script [OF safe_renderBasicMarkdown [of "text"]]
    safe_no_script [OF safe_renderBasicMarkdown [of "js ''<script>''"]]
    render_script_example render_inline_example
  by blast

theorem renderBasicMarkdown_escapes_first_witness:
  "renderBasicMarkdown (js ''a<b'') = [] @ 0x3C # js ''p>a&lt;b</p>''
   \<and> (\<exists>t\<in>set markup_tags. prefix t (0x3C # js ''p>a&lt;b</p>''))
   \<and> renderBasicMarkdown (js ''a<b'') = js ''<p'' @ 0x3E # js ''a&lt;b</p>''
   \<and> (\<exists>t\<in>set markup_tags. suffix t (js ''<p'' @ [0x3E]))"
proof -
  have 1: "renderBasicMarkdown (js ''a<b'') = [] @ 0x3C # js ''p>a&lt;b</p>''"
    by (simp add: render_angle_example) (simp add: js_def)
  have 2: "renderBasicMarkdown (js ''a<b'') = js ''<p'' @ 0x3E # js ''a&lt;b</p>''"
    by (simp add: render_angle_example) (simp add: js_def)
  from renderBasicMarkdown_escapes_first [of "js ''a<b''"] 1 2 show ?thesis
    by blast
qed

section \<open>Properties of the persistence gateway\<close>

text \<open>
  Claim C8. \<^verbatim>\<open>loadNotes\<close> always returns a value and never an error. It returns the
  empty list when the key is absent, when reading the storage throws, when the stored
  text is not valid JSON (\<^verbatim>\<open>JSON.parse\<close> throws), and when the text parses to a value
  that is not an array.
\<close>

theorem loadNotes_defensive:
  fixes JSON_parse :: "jsstring \<Rightarrow> js_error + 'n json"
  shows "(\<exists>xs. loadNotes JSON_parse getItem = Inr xs)
   \<and> (getItem = Inr None \<longrightarrow> loadNotes JSON_parse getItem = Inr [])
   \<and> (\<forall>e. getItem = Inl e \<longrightarrow> loadNotes JSON_parse getItem = Inr [])
   \<and> (\<forall>raw e. getItem = Inr (Some raw) \<and> JSON_parse raw = Inl e
          \<longrightarrow> loadNotes JSON_parse getItem = Inr [])
   \<and> (\<forall>raw v. getItem = Inr (Some raw) \<and> JSON_parse raw = Inr v \<and> (\<forall>xs. v \<noteq> JArr xs)
          \<longrightarrow> loadNotes JSON_parse getItem = Inr [])"
  by (auto simp: loadNotes_def loadNotes_try_def split: sum.splits option.splits json.splits)

theorem loadNotes_defensive_witness:
  "loadNotes (\<lambda>s. if s = js ''{}'' then Inr (JObj []) else Inl SyntaxError :: js_error + int json)
      (Inr None) = Inr []
   \<and> loadNotes (\<lambda>s. if s = js ''{}'' then Inr (JObj []) else Inl SyntaxError :: js_error + int json)
      (Inl SecurityError) = Inr []
   \<and> loadNotes (\<lambda>s. if s = js ''{}'' then Inr (JObj []) else Inl SyntaxError :: js_error + int json)
      (Inr (Some (js ''not json''))) = Inr []
   \<and> loadNotes (\<lambda>s. if s = js ''{}'' then Inr (JObj []) else Inl SyntaxError :: js_error + int json)
      (Inr (Some (js ''{}''))) = Inr []"
  using
    loadNotes_defensive [of "\<lambda>s. if s = js ''{}'' then Inr (JObj []) else Inl SyntaxError :: js_error + int json" "Inr None"]
    loadNotes_defensive [of "\<lambda>s. if s = js ''{}'' then Inr (JObj []) else Inl SyntaxError :: js_error + int json" "Inl SecurityError"]
    loadNotes_defensive [of "\<lambda>s. if s = js ''{}'' then Inr (JObj []) else Inl SyntaxError :: js_error + int json" "Inr (Some (js ''not json''))"]
    loadNotes_defensive [of "\<lambda>s. if s = js ''{}'' then Inr (JObj []) else Inl SyntaxError :: js_error + int json" "Inr (Some (js ''{}''))"]
  by (simp add: js_def)

text \<open>
  Claim C10. When the stored text parses to an array, \<^verbatim>\<open>loadNotes\<close> returns the
  elements of that array as they are, whatever they are: numbers, objects that lack
  properties of a note, anything. \<^verbatim>\<open>JSON.parse\<close> rejects the empty text, so a text
  that parses is not empty.
\<close>

theorem loadNotes_array_verbatim:
  fixes JSON_parse :: "jsstring \<Rightarrow> js_error + 'n json"
  shows "getItem = Inr (Some raw) \<Longrightarrow> raw \<noteq> [] \<Longrightarrow> JSON_parse raw = Inr (JArr xs)
     \<Longrightarrow> loadNotes JSON_parse getItem = Inr xs"
  by (simp add: loadNotes_def loadNotes_try_def)

theorem loadNotes_array_verbatim_witness:
  "loadNotes (\<lambda>s. if s = js ''[1,2,3]'' then Inr (JArr [JNum 1, JNum 2, JNum 3])
                 else if s = js ''[{}]'' then Inr (JArr [JObj []])
                 else Inl SyntaxError :: js_error + int json)
      (Inr (Some (js ''[1,2,3]''))) = Inr [JNum 1, JNum 2, JNum 3]
   \<and> loadNotes (\<lambda>s. if s = js ''[1,2,3]'' then Inr (JArr [JNum 1, JNum 2, JNum 3])
                 else if s = js ''[{}]'' then Inr (JArr [JObj []])
                 else Inl SyntaxError :: js_error + int json)
      (Inr (Some (js ''[{}]''))) = Inr [JObj []]"
  using
    loadNotes_array_verbatim [of "Inr (Some (js ''[1,2,3]''))" "js ''[1,2,3]''"
      "\<lambda>s. if s = js ''[1,2,3]'' then Inr (JArr [JNum 1, JNum 2, JNum 3])
                 else if s = js ''[{}]'' then Inr (JArr [JObj []])
                 else Inl SyntaxError :: js_error + int json" "[JNum 1, JNum 2, JNum 3]"]
    loadNotes_array_verbatim [of "Inr (Some (js ''[{}]''))" "js ''[{}]''"
      "\<lambda>s. if s = js ''[1,2,3]'' then Inr (JArr [JNum 1, JNum 2, JNum 3])
                 else if s = js ''[{}]'' then Inr (JArr [JObj []])
                 else Inl SyntaxError :: js_error + int json" "[JObj []]"]
  by (simp add: js_def)

section \<open>Properties of the note store\<close>

lemma find_in_set: "find P xs = Some x \<Longrightarrow> x \<in> set xs \<and> P x"
  by (induction xs) (auto split: if_splits)

lemma find_exists: "x \<in> set xs \<Longrightarrow> P x \<Longrightarrow> \<exists>y. find P xs = Some y"
  by (induction xs) auto

lemma activeNote_in_notes:
  "activeNote st = Some a \<Longrightarrow> a \<in> set (notes st) \<and> activeId st = Some (id' a)"
  by (auto simp: activeNote_def split: option.splits dest: find_in_set)

subsection \<open>Updating a note\<close>

text \<open>
  A payload that carries the id of a stored note and another \<^verbatim>\<open>createdAt\<close>
  overwrites the \<^verbatim>\<open>createdAt\<close> of that note.
\<close>

theorem updateNote_createdAt_counterexample:
  "id' (stored_note\<lparr>createdAt := Some 99\<rparr>) = id' stored_note
   \<and> map createdAt (updateNote 7 (stored_note\<lparr>createdAt := Some 99\<rparr>) [stored_note]) = [Some 99]
   \<and> map createdAt [stored_note] = [Some 1]"
  by (simp add: updateNote_def stored_note_def)

text \<open>
  Claim C2, amended. \<^verbatim>\<open>updateNote(next)\<close> leaves the id of every note as it is and
  changes no note whose id differs from \<^verbatim>\<open>next.id\<close>. In a note with that id,
  \<^verbatim>\<open>updatedAt\<close> becomes the reading of the clock, which is at least the earlier
  \<^verbatim>\<open>updatedAt\<close> when the clock has not gone back, and \<^verbatim>\<open>createdAt\<close> becomes the
  payload's \<^verbatim>\<open>createdAt\<close>: it stays as it was when the payload carries the note's own
  \<^verbatim>\<open>createdAt\<close>.
\<close>

theorem updateNote_identity:
  "length (updateNote now next prev) = length prev
   \<and> map id' (updateNote now next prev) = map id' prev
   \<and> (\<forall>i<length prev.
         (id' (prev ! i) \<noteq> id' next \<longrightarrow> updateNote now next prev ! i = prev ! i)
       \<and> (id' (prev ! i) = id' next \<longrightarrow>
            createdAt (updateNote now next prev ! i) = createdAt next
          \<and> updatedAt (updateNote now next prev ! i) = Some now
          \<and> (createdAt next = createdAt (prev ! i)
               \<longrightarrow> createdAt (updateNote now next prev ! i) = createdAt (prev ! i))
          \<and> (\<forall>t. updatedAt (prev ! i) = Some t \<and> t \<le> now
               \<longrightarrow> (\<exists>t'. updatedAt (updateNote now next prev ! i) = Some t' \<and> t \<le> t'))))"
  by (simp add: updateNote_def comp_def)

theorem updateNote_identity_witness:
  "(0::nat) < length [stored_note]
   \<and> id' ([stored_note] ! 0) = id' (stored_note\<lparr>title := Some (js ''x'')\<rparr>)
   \<and> createdAt (stored_note\<lparr>title := Some (js ''x'')\<rparr>) = createdAt ([stored_note] ! 0)
   \<and> updatedAt ([stored_note] ! 0) = Some 5 \<and> (5::int) \<le> 7
   \<and> createdAt (updateNote 7 (stored_note\<lparr>title := Some (js ''x'')\<rparr>) [stored_note] ! 0) = Some 1
   \<and> updatedAt (updateNote 7 (stored_note\<lparr>title := Some (js ''x'')\<rparr>) [stored_note] ! 0) = Some 7
   \<and> map id' (updateNote 7 (stored_note\<lparr>title := Some (js ''x'')\<rparr>) [stored_note]) = [js ''1'']"
  using updateNote_identity [of 7 "stored_note\<lparr>title := Some (js ''x'')\<rparr>" "[stored_note]"]
  by (simp add: stored_note_def)

text \<open>
  A payload that names only \<^verbatim>\<open>id\<close> and \<^verbatim>\<open>title\<close> leaves the stored note without
  its content.
\<close>

theorem updateNote_merge_counterexample:
  "id' partial_payload = id' stored_note
   \<and> content partial_payload = None
   \<and> content stored_note = Some (js ''c'')
   \<and> map content (updateNote 7 partial_payload [stored_note]) = [None]"
  by (simp add: updateNote_def stored_note_def partial_payload_def)

text \<open>
  Claim C3, amended. \<^verbatim>\<open>updateNote(next)\<close> puts \<^verbatim>\<open>next\<close>, with \<^verbatim>\<open>updatedAt\<close>
  refreshed, in the place of every note whose id is \<^verbatim>\<open>next.id\<close> and leaves the other
  notes as they are; nothing of the replaced note is merged in. The merging is done by
  the callers: \<^verbatim>\<open>handleTitle\<close>, \<^verbatim>\<open>handleContent\<close> and \<^verbatim>\<open>handleTogglePin\<close> pass
  the active note with one property replaced, so the stored note becomes the active
  note with that property and \<^verbatim>\<open>updatedAt\<close> changed and every other property as it
  was. With no active note the three do nothing.
\<close>

theorem updateNote_replaces:
  "(\<forall>i<length prev.
       updateNote now next prev ! i
         = (if id' (prev ! i) = id' next then next\<lparr>updatedAt := Some now\<rparr> else prev ! i))
   \<and> length (updateNote now next prev) = length prev
   \<and> (next \<in> set prev \<longrightarrow> next\<lparr>updatedAt := Some now\<rparr> \<in> set (updateNote now next prev))
   \<and> (activeNote st = Some a \<longrightarrow>
         a \<in> set (notes st)
       \<and> notes (handleTitle now v st)
           = map (\<lambda>n. if id' n = id' a then a\<lparr>title := Some v, updatedAt := Some now\<rparr> else n)
               (notes st)
       \<and> notes (handleContent now v st)
           = map (\<lambda>n. if id' n = id' a then a\<lparr>content := Some v, updatedAt := Some now\<rparr> else n)
               (notes st)
       \<and> notes (handleTogglePin now st)
           = map (\<lambda>n. if id' n = id' a
                        then a\<lparr>pinned := Some (pinned a \<noteq> Some True), updatedAt := Some now\<rparr>
                        else n)
               (notes st))
   \<and> (activeNote st = None \<longrightarrow>
         handleTitle now v st = st \<and> handleContent now v st = st \<and> handleTogglePin now st = st)"
  using activeNote_in_notes [of st a]
  by (auto simp: updateNote_def handleTitle_def handleContent_def handleTogglePin_def)

theorem updateNote_replaces_witness:
  "(0::nat) < length [stored_note]
   \<and> updateNote 7 partial_payload [stored_note] ! 0 = partial_payload\<lparr>updatedAt := Some 7\<rparr>
   \<and> activeNote \<lparr>notes = [stored_note], activeId = Some (js ''1''), search = []\<rparr>
       = Some stored_note
   \<and> notes (handleTitle 7 (js ''x'')
        \<lparr>notes = [stored_note], activeId = Some (js ''1''), search = []\<rparr>)
       = [stored_note\<lparr>title := Some (js ''x''), updatedAt := Some 7\<rparr>]
   \<and> activeNote \<lparr>notes = [stored_note], activeId = None, search = []\<rparr> = None
   \<and> handleTogglePin 7 \<lparr>notes = [stored_note], activeId = None, search = []\<rparr>
       = \<lparr>notes = [stored_note], activeId = None, search = []\<rparr>"
proof -
  have a: "activeNote \<lparr>notes = [stored_note], activeId = Some (js ''1''), search = []\<rparr>
             = Some stored_note"
    by (simp add: activeNote_def stored_note_def)
  have n: "activeNote \<lparr>notes = [stored_note], activeId = None, search = []\<rparr> = None"
    by (simp add: activeNote_def)
  have i: "id' partial_payload = id' stored_note"
    by (simp add: partial_payload_def stored_note_def)
  from a i
    updateNote_replaces [of "[stored_note]" 7 partial_payload
      "\<lparr>notes = [stored_note], activeId = Some (js ''1''), search = []\<rparr>"
      stored_note "js ''x''"]
  have 1: "updateNote 7 partial_payload [stored_note] ! 0 = partial_payload\<lparr>updatedAt := Some 7\<rparr>"
    and 2: "notes (handleTitle 7 (js ''x'')
              \<lparr>notes = [stored_note], activeId = Some (js ''1''), search = []\<rparr>)
            = [stored_note\<lparr>title := Some (js ''x''), updatedAt := Some 7\<rparr>]"
    by simp_all
  from n
    updateNote_replaces [of "[]" 7 partial_payload
      "\<lparr>notes = [stored_note], activeId = None, search = []\<rparr>"
      stored_note "js ''x''"]
  have 3: "handleTogglePin 7 \<lparr>notes = [stored_note], activeId = None, search = []\<rparr>
       = \<lparr>notes = [stored_note], activeId = None, search = []\<rparr>"
    by simp
  from a n 1 2 3 show ?thesis by simp
qed

subsection \<open>Selecting a note\<close>

text \<open>Selecting an id that no note has changes the pointer.\<close>

theorem handleSelectNote_unknown_id_counterexample:
  "js ''zzz'' \<notin> id' ` set (notes \<lparr>notes = [], activeId = None, search = []\<rparr>)
   \<and> activeId (handleSelectNote (js ''zzz'') \<lparr>notes = [], activeId = None, search = []\<rparr>)
       \<noteq> activeId \<lparr>notes = [], activeId = None, search = []\<rparr>"
  by (simp add: handleSelectNote_def)

text \<open>
  Claim C7, amended. \<^verbatim>\<open>handleSelectNote(id)\<close> sets the pointer to \<^verbatim>\<open>id\<close> whether
  a note with that id exists or not, and changes nothing else. When a note has the id,
  the active note is a note with that id; when none has, there is no active note.
\<close>

theorem handleSelectNote_sets_pointer:
  "activeId (handleSelectNote i st) = Some i
   \<and> notes (handleSelectNote i st) = notes st
   \<and> search (handleSelectNote i st) = search st
   \<and> (i \<in> id' ` set (notes st)
        \<longrightarrow> (\<exists>n\<in>set (notes st). id' n = i \<and> activeNote (handleSelectNote i st) = Some n))
   \<and> (i \<notin> id' ` set (notes st) \<longrightarrow> activeNote (handleSelectNote i st) = None)"
proof -
  have "\<exists>n\<in>set (notes st). id' n = i \<and> find (\<lambda>n. id' n = i) (notes st) = Some n"
    if "i \<in> id' ` set (notes st)"
  proof -
    from that obtain m where "m \<in> set (notes st)" "id' m = i" by auto
    from find_exists [of m "notes st" "\<lambda>n. id' n = i", OF this]
    obtain y where y: "find (\<lambda>n. id' n = i) (notes st) = Some y" by blast
    from find_in_set [OF y] y show ?thesis by blast
  qed
  moreover have "find (\<lambda>n. id' n = i) (notes st) = None" if "i \<notin> id' ` set (notes st)"
    using that by (auto simp: find_None_iff)
  ultimately show ?thesis by (auto simp: handleSelectNote_def activeNote_def)
qed

theorem handleSelectNote_sets_pointer_witness:
  "js ''zzz'' \<notin> id' ` set (notes \<lparr>notes = [], activeId = None, search = []\<rparr>)
   \<and> activeId (handleSelectNote (js ''zzz'') \<lparr>notes = [], activeId = None, search = []\<rparr>)
       = Some (js ''zzz'')
   \<and> activeNote (handleSelectNote (js ''zzz'') \<lparr>notes = [], activeId = None, search = []\<rparr>)
       = None"
  using handleSelectNote_sets_pointer [of "js ''zzz''" "\<lparr>notes = [], activeId = None, search = []\<rparr>"]
  by simp

subsection \<open>The list of the sidebar\<close>

lemma timestamped_filter: "timestamped ns \<Longrightarrow> timestamped (filter P ns)"
  by (simp add: timestamped_def)

lemma sort_compare_sortByUpdated:
  "updatedAt x \<noteq> None \<Longrightarrow> updatedAt y \<noteq> None
     \<Longrightarrow> (sort_compare sortByUpdated x y > 0) = (\<not> time_key x \<le> time_key y)"
  by (auto simp: sort_compare_def sortByUpdated_def time_key_def)

lemma insert_sorted_insort:
  "updatedAt x \<noteq> None \<Longrightarrow> \<forall>y\<in>set ys. updatedAt y \<noteq> None
     \<Longrightarrow> insert_sorted sortByUpdated x ys = insort_key time_key x ys"
  by (induction ys) (simp_all add: sort_compare_sortByUpdated)

lemma array_sort_sort_key:
  "timestamped ns \<Longrightarrow> array_sort sortByUpdated ns = sort_key time_key ns"
proof (induction ns)
  case Nil
  then show ?case by (simp add: array_sort_def)
next
  case (Cons n ns)
  then have ih: "array_sort sortByUpdated ns = sort_key time_key ns"
    by (simp add: timestamped_def)
  from Cons.prems have "updatedAt n \<noteq> None" "\<forall>y\<in>set (sort_key time_key ns). updatedAt y \<noteq> None"
    by (simp_all add: timestamped_def)
  from insert_sorted_insort [OF this] ih show ?case
    by (simp add: array_sort_def)
qed

lemma set_insert_sorted: "set (insert_sorted cmp x ys) = insert x (set ys)"
  by (induction ys) auto

lemma mset_insert_sorted: "mset (insert_sorted cmp x ys) = add_mset x (mset ys)"
  by (induction ys) auto

lemma mset_array_sort: "mset (array_sort cmp xs) = mset xs"
  by (induction xs) (simp_all add: array_sort_def mset_insert_sorted)

lemma set_array_sort: "set (array_sort cmp xs) = set xs"
  by (induction xs) (simp_all add: array_sort_def set_insert_sorted)

lemma Sidebar_sorted_sort_key:
  "timestamped ns \<Longrightarrow>
     Sidebar_sorted ns = sort_key time_key (filter (\<lambda>n. pinned n = Some True) ns)
                       @ sort_key time_key (filter (\<lambda>n. \<not> pinned n = Some True) ns)"
  by (simp add: Sidebar_sorted_def Let_def array_sort_sort_key timestamped_filter)

lemma filter_pinned_Sidebar:
  "filter (\<lambda>n. pinned n = Some True) (Sidebar_sorted ns)
     = array_sort sortByUpdated (filter (\<lambda>n. pinned n = Some True) ns)"
  "filter (\<lambda>n. \<not> pinned n = Some True) (Sidebar_sorted ns)
     = array_sort sortByUpdated (filter (\<lambda>n. \<not> pinned n = Some True) ns)"
  by (simp_all add: Sidebar_sorted_def Let_def filter_id_conv filter_empty_conv set_array_sort)

lemma sorted_desc_sort_key:
  "timestamped ns \<Longrightarrow>
     sorted_wrt (\<lambda>a b. the (updatedAt a) \<ge> the (updatedAt b)) (array_sort sortByUpdated ns)"
proof -
  assume t: "timestamped ns"
  have "sorted (map time_key (sort_key time_key ns))" by (rule sorted_sort_key)
  then have "sorted_wrt (\<lambda>a b. time_key a \<le> time_key b) (sort_key time_key ns)"
    by (simp add: sorted_map)
  then show ?thesis
    by (simp add: array_sort_sort_key [OF t] time_key_def)
qed

lemma stable_array_sort:
  assumes t: "timestamped ns"
  shows "filter (\<lambda>n. updatedAt n = Some u) (array_sort sortByUpdated ns)
           = filter (\<lambda>n. updatedAt n = Some u) ns"
proof -
  have eq: "(updatedAt n = Some u) = (time_key n = - u)" if "n \<in> set ns" for n
    using that t by (auto simp: timestamped_def time_key_def)
  have "filter (\<lambda>n. updatedAt n = Some u) (sort_key time_key ns)
          = filter (\<lambda>n. time_key n = - u) (sort_key time_key ns)"
    by (rule filter_cong) (simp_all add: eq)
  also have "\<dots> = filter (\<lambda>n. time_key n = - u) ns" by (rule sort_key_stable)
  also have "\<dots> = filter (\<lambda>n. updatedAt n = Some u) ns"
    by (rule filter_cong) (simp_all add: eq)
  finally show ?thesis by (simp add: array_sort_sort_key [OF t])
qed

lemma Sidebar_three:
  assumes "pinned A = Some True" "pinned B = Some True" "pinned C \<noteq> Some True"
    and "updatedAt A = Some t1" "updatedAt B = Some t2" "updatedAt C = Some t3"
    and "t1 < t2" "t2 < t3"
  shows "Sidebar_sorted [A, B, C] = [B, A, C]" "Sidebar_sorted [A, C, B] = [B, A, C]"
    "Sidebar_sorted [B, A, C] = [B, A, C]" "Sidebar_sorted [B, C, A] = [B, A, C]"
    "Sidebar_sorted [C, A, B] = [B, A, C]" "Sidebar_sorted [C, B, A] = [B, A, C]"
  using assms
  by (simp_all add: Sidebar_sorted_def array_sort_def sort_compare_def sortByUpdated_def)

lemma example_notes_timestamped:
  "timestamped [note_C, note_A, note_B]" "timestamped [note_X, note_Y]"
  by (simp_all add: timestamped_def note_A_def note_B_def note_C_def note_X_def note_Y_def)

text \<open>
  Claim C4. The list of the sidebar holds the same notes as the collection, the pinned
  ones before the others. For notes that all have their \<^verbatim>\<open>updatedAt\<close>, each of the
  two parts is in descending order of \<^verbatim>\<open>updatedAt\<close>, and notes of one part with the
  same \<^verbatim>\<open>updatedAt\<close> keep the order they have in the collection. For pinned A and B
  and unpinned C with \<^verbatim>\<open>updatedAt\<close> \<open>t1 < t2 < t3\<close> the list is B, A, C in each of the
  six orders of the collection. The sidebar shows this list of the notes that pass the
  search, which are all notes when the query is empty.
\<close>

theorem Sidebar_sorted_pinned_first:
  "mset (Sidebar_sorted ns) = mset ns
   \<and> Sidebar_sorted ns = filter (\<lambda>n. pinned n = Some True) (Sidebar_sorted ns)
                       @ filter (\<lambda>n. \<not> pinned n = Some True) (Sidebar_sorted ns)
   \<and> (timestamped ns \<longrightarrow>
      sorted_wrt (\<lambda>a b. the (updatedAt a) \<ge> the (updatedAt b))
        (filter (\<lambda>n. pinned n = Some True) (Sidebar_sorted ns))
    \<and> sorted_wrt (\<lambda>a b. the (updatedAt a) \<ge> the (updatedAt b))
        (filter (\<lambda>n. \<not> pinned n = Some True) (Sidebar_sorted ns))
    \<and> (\<forall>u. filter (\<lambda>n. updatedAt n = Some u) (filter (\<lambda>n. pinned n = Some True) (Sidebar_sorted ns))
           = filter (\<lambda>n. updatedAt n = Some u) (filter (\<lambda>n. pinned n = Some True) ns))
    \<and> (\<forall>u. filter (\<lambda>n. updatedAt n = Some u) (filter (\<lambda>n. \<not> pinned n = Some True) (Sidebar_sorted ns))
           = filter (\<lambda>n. updatedAt n = Some u) (filter (\<lambda>n. \<not> pinned n = Some True) ns)))
   \<and> (pinned A = Some True \<and> pinned B = Some True \<and> pinned C \<noteq> Some True
      \<and> updatedAt A = Some t1 \<and> updatedAt B = Some t2 \<and> updatedAt C = Some t3
      \<and> t1 < t2 \<and> t2 < t3 \<longrightarrow>
        Sidebar_sorted [A, B, C] = [B, A, C] \<and> Sidebar_sorted [A, C, B] = [B, A, C]
      \<and> Sidebar_sorted [B, A, C] = [B, A, C] \<and> Sidebar_sorted [B, C, A] = [B, A, C]
      \<and> Sidebar_sorted [C, A, B] = [B, A, C] \<and> Sidebar_sorted [C, B, A] = [B, A, C])
   \<and> visibleNotes toLowerCase st
        = Sidebar_sorted (filteredNotes toLowerCase (search st) (notes st))
   \<and> (toLowerCase (trim (search st)) = []
        \<longrightarrow> visibleNotes toLowerCase st = Sidebar_sorted (notes st))"
proof (intro conjI impI allI)
  show "mset (Sidebar_sorted ns) = mset ns"
    by (simp add: Sidebar_sorted_def Let_def mset_array_sort)
  show "Sidebar_sorted ns = filter (\<lambda>n. pinned n = Some True) (Sidebar_sorted ns)
                        @ filter (\<lambda>n. \<not> pinned n = Some True) (Sidebar_sorted ns)"
    by (simp only: filter_pinned_Sidebar) (simp add: Sidebar_sorted_def Let_def)
next
  assume t: "timestamped ns"
  show "sorted_wrt (\<lambda>a b. the (updatedAt a) \<ge> the (updatedAt b))
        (filter (\<lambda>n. pinned n = Some True) (Sidebar_sorted ns))"
    by (simp only: filter_pinned_Sidebar) (rule sorted_desc_sort_key [OF timestamped_filter [OF t]])
next
  assume t: "timestamped ns"
  show "sorted_wrt (\<lambda>a b. the (updatedAt a) \<ge> the (updatedAt b))
        (filter (\<lambda>n. \<not> pinned n = Some True) (Sidebar_sorted ns))"
    by (simp only: filter_pinned_Sidebar) (rule sorted_desc_sort_key [OF timestamped_filter [OF t]])
next
  fix u
  assume t: "timestamped ns"
  show "filter (\<lambda>n. updatedAt n = Some u) (filter (\<lambda>n. pinned n = Some True) (Sidebar_sorted ns))
           = filter (\<lambda>n. updatedAt n = Some u) (filter (\<lambda>n. pinned n = Some True) ns)"
    by (simp only: filter_pinned_Sidebar) (rule stable_array_sort [OF timestamped_filter [OF t]])
next
  fix u
  assume t: "timestamped ns"
  show "filter (\<lambda>n. updatedAt n = Some u) (filter (\<lambda>n. \<not> pinned n = Some True) (Sidebar_sorted ns))
           = filter (\<lambda>n. updatedAt n = Some u) (filter (\<lambda>n. \<not> pinned n = Some True) ns)"
    by (simp only: filter_pinned_Sidebar) (rule stable_array_sort [OF timestamped_filter [OF t]])
qed (simp_all add: Sidebar_three visibleNotes_def filteredNotes_def)

theorem Sidebar_sorted_pinned_first_witness:
  "timestamped [note_C, note_A, note_B]
   \<and> pinned note_A = Some True \<and> pinned note_B = Some True \<and> pinned note_C \<noteq> Some True
   \<and> updatedAt note_A = Some 1 \<and> updatedAt note_B = Some 2 \<and> updatedAt note_C = Some 3
   \<and> (1::int) < 2 \<and> (2::int) < 3
   \<and> Sidebar_sorted [note_C, note_A, note_B] = [note_B, note_A, note_C]
   \<and> mset (Sidebar_sorted [note_C, note_A, note_B]) = mset [note_C, note_A, note_B]"
proof -
  have h: "pinned note_A = Some True \<and> pinned note_B = Some True \<and> pinned note_C \<noteq> Some True
   \<and> updatedAt note_A = Some 1 \<and> updatedAt note_B = Some 2 \<and> updatedAt note_C = Some 3
   \<and> (1::int) < 2 \<and> (2::int) < 3"
    by (simp add: note_A_def note_B_def note_C_def)
  from h example_notes_timestamped(1)
    Sidebar_sorted_pinned_first [where ns = "[note_C, note_A, note_B]" and A = note_A
      and B = note_B and C = note_C and ?t1.0 = 1 and ?t2.0 = 2 and ?t3.0 = 3]
  show ?thesis by blast
qed

subsection \<open>Searching\<close>

lemma js_includes_Nil: "js_includes s []"
  by (induction s) simp_all

lemma filteredNotes_filter:
  "filteredNotes toLowerCase srch ns = filter (note_matches toLowerCase srch) ns"
proof (cases "toLowerCase (trim srch) = []")
  case True
  then have "note_matches toLowerCase srch n" for n
    by (simp add: note_matches_def js_includes_Nil)
  with True show ?thesis by (simp add: filteredNotes_def)
next
  case False
  have "(\<lambda>n. js_includes (toLowerCase (or_empty (title n))) (toLowerCase (trim srch))
            \<or> js_includes (toLowerCase (or_empty (content n))) (toLowerCase (trim srch)))
          = note_matches toLowerCase srch"
    by (rule ext) (simp add: note_matches_def)
  with False show ?thesis by (simp add: filteredNotes_def Let_def)
qed

lemma Sidebar_sorted_filter:
  assumes t: "timestamped ns"
  shows "Sidebar_sorted (filter P ns) = filter P (Sidebar_sorted ns)"
proof -
  have "Sidebar_sorted (filter P ns)
          = sort_key time_key (filter P (filter (\<lambda>n. pinned n = Some True) ns))
          @ sort_key time_key (filter P (filter (\<lambda>n. \<not> pinned n = Some True) ns))"
    by (simp add: Sidebar_sorted_sort_key [OF timestamped_filter [OF t]] conj_commute)
  also have "\<dots> = filter P (Sidebar_sorted ns)"
    by (simp add: Sidebar_sorted_sort_key [OF t] filter_sort)
  finally show ?thesis .
qed

lemma set_Sidebar_sorted: "set (Sidebar_sorted ns) = set ns"
  by (auto simp: Sidebar_sorted_def Let_def set_array_sort)

text \<open>
  Claim C5. For every collection and every query, the sidebar shows a note if and only
  if the note is in the collection and its case-folded title or its case-folded content
  contains the trimmed, case-folded query. The source filters before it sorts; for
  notes that all have their \<^verbatim>\<open>updatedAt\<close> the list is the one obtained by filtering
  the sorted list of the whole collection, so the notes kept are in the order they have
  there.
\<close>

theorem visibleNotes_filter_after_sort:
  "(\<forall>n. n \<in> set (visibleNotes toLowerCase st)
         \<longleftrightarrow> n \<in> set (notes st) \<and> note_matches toLowerCase (search st) n)
   \<and> (timestamped (notes st) \<longrightarrow>
        visibleNotes toLowerCase st
          = filter (note_matches toLowerCase (search st)) (Sidebar_sorted (notes st)))"
  by (auto simp: visibleNotes_def filteredNotes_filter set_Sidebar_sorted Sidebar_sorted_filter)

lemma example_search:
  "filter (note_matches ascii_toLowerCase (js '' FOO ''))
     (Sidebar_sorted [note_C, note_A, note_B]) = [note_A]"
  by code_simp

theorem visibleNotes_filter_after_sort_witness:
  "timestamped (notes \<lparr>notes = [note_C, note_A, note_B], activeId = None, search = js '' FOO ''\<rparr>)
   \<and> visibleNotes ascii_toLowerCase
        \<lparr>notes = [note_C, note_A, note_B], activeId = None, search = js '' FOO ''\<rparr> = [note_A]"
  using example_notes_timestamped(1) example_search
    visibleNotes_filter_after_sort [of ascii_toLowerCase
      "\<lparr>notes = [note_C, note_A, note_B], activeId = None, search = js '' FOO ''\<rparr>"]
  by simp

subsection \<open>Deleting the active note\<close>

lemma find_least_sort_key:
  "find (\<lambda>x. \<forall>y\<in>set xs. f x \<le> f y) xs
     = (case sort_key f xs of [] \<Rightarrow> None | m # _ \<Rightarrow> Some m)"
proof (induction xs)
  case Nil
  then show ?case by simp
next
  case (Cons x xs)
  show ?case
  proof (cases "sort_key f xs")
    case Nil
    then have "xs = []" by (metis length_0_conv length_sort)
    then show ?thesis by simp
  next
    case (Cons m ys)
    with Cons.IH have fm: "find (\<lambda>z. \<forall>y\<in>set xs. f z \<le> f y) xs = Some m" by simp
    from find_in_set [OF fm] have m: "m \<in> set xs" "\<forall>y\<in>set xs. f m \<le> f y" by simp_all
    show ?thesis
    proof (cases "f x \<le> f m")
      case True
      with m have "\<forall>y\<in>set (x # xs). f x \<le> f y" by auto
      with True Cons show ?thesis by simp
    next
      case False
      with m have nx: "\<not> (\<forall>y\<in>set (x # xs). f x \<le> f y)" by auto
      from fm obtain i where i: "i < length xs" "m = xs ! i"
        "\<forall>j<i. \<not> (\<forall>y\<in>set xs. f (xs ! j) \<le> f y)"
        by (auto simp: find_Some_iff)
      from False m i have "find (\<lambda>z. \<forall>y\<in>set (x # xs). f z \<le> f y) xs = Some m"
        by (auto simp: find_Some_iff intro!: exI [of _ i])
      with nx False Cons show ?thesis by auto
    qed
  qed
qed

lemma most_recent_sort:
  assumes t: "timestamped ns"
  shows "most_recent ns = (case array_sort sortByUpdated ns of [] \<Rightarrow> None | m # _ \<Rightarrow> Some m)"
  unfolding most_recent_def array_sort_sort_key [OF t]
  using find_least_sort_key [where f = time_key and xs = ns] by (simp add: time_key_def)

lemma filter_remove1_distinct:
  "distinct (map f xs) \<Longrightarrow> a \<in> set xs \<Longrightarrow> filter (\<lambda>n. f n \<noteq> f a) xs = remove1 a xs"
proof (induction xs)
  case Nil
  then show ?case by simp
next
  case (Cons x xs)
  show ?case
  proof (cases "x = a")
    case True
    with Cons.prems have "f a \<notin> f ` set xs" by simp
    then have "\<forall>n\<in>set xs. f n \<noteq> f a" by (metis imageI)
    with True show ?thesis by (simp add: filter_id_conv)
  next
    case False
    with Cons.prems have "a \<in> set xs" "f x \<noteq> f a" by auto
    with Cons False show ?thesis by simp
  qed
qed

text \<open>
  Claim C6. With no active note, or when the user does not confirm,
  \<^verbatim>\<open>handleDeleteNote\<close> changes nothing. Otherwise it removes the notes with the id of
  the active note, which is that note alone when the ids are distinct, and the pointer
  becomes none when no note remains. For notes that all have a non-empty id and their
  \<^verbatim>\<open>updatedAt\<close>, the pointer becomes the id of the first of the remaining notes, in
  the order of the collection, whose \<^verbatim>\<open>updatedAt\<close> is the greatest.
\<close>

theorem handleDeleteNote_reassigns:
  "(activeNote st = None \<longrightarrow> handleDeleteNote ok st = st)
   \<and> (\<not> ok \<longrightarrow> handleDeleteNote ok st = st)
   \<and> (activeNote st = Some a \<and> ok
        \<longrightarrow> notes (handleDeleteNote ok st) = filter (\<lambda>n. id' n \<noteq> id' a) (notes st)
          \<and> (distinct (map id' (notes st))
               \<longrightarrow> notes (handleDeleteNote ok st) = remove1 a (notes st))
          \<and> (notes (handleDeleteNote ok st) = [] \<longrightarrow> activeId (handleDeleteNote ok st) = None)
          \<and> search (handleDeleteNote ok st) = search st
          \<and> (timestamped (notes st) \<and> (\<forall>n\<in>set (notes st). id' n \<noteq> [])
               \<longrightarrow> activeId (handleDeleteNote ok st)
                     = map_option id' (most_recent (notes (handleDeleteNote ok st)))))"
proof (intro conjI impI)
  show "handleDeleteNote ok st = st" if "activeNote st = None"
    using that by (simp add: handleDeleteNote_def)
  show "handleDeleteNote ok st = st" if "\<not> ok"
    using that by (simp add: handleDeleteNote_def split: option.splits)
next
  assume h: "activeNote st = Some a \<and> ok"
  let ?rem = "filter (\<lambda>n. id' n \<noteq> id' a) (notes st)"
  show n': "notes (handleDeleteNote ok st) = ?rem"
    using h by (simp add: handleDeleteNote_def Let_def)
  show "notes (handleDeleteNote ok st) = remove1 a (notes st)" if "distinct (map id' (notes st))"
    using n' filter_remove1_distinct [OF that, of a] activeNote_in_notes [of st a] h by simp
  show "activeId (handleDeleteNote ok st) = None" if "notes (handleDeleteNote ok st) = []"
    using that h unfolding n' by (simp add: handleDeleteNote_def Let_def array_sort_def)
  show "search (handleDeleteNote ok st) = search st"
    using h by (simp add: handleDeleteNote_def Let_def)
  show "activeId (handleDeleteNote ok st)
          = map_option id' (most_recent (notes (handleDeleteNote ok st)))"
    if w: "timestamped (notes st) \<and> (\<forall>n\<in>set (notes st). id' n \<noteq> [])"
  proof -
    from w have tr: "timestamped ?rem" by (simp add: timestamped_filter)
    from w have nn: "\<forall>n\<in>set (array_sort sortByUpdated ?rem). id' n \<noteq> []"
      by (simp add: set_array_sort)
    show ?thesis
      unfolding n' most_recent_sort [OF tr]
      using h nn by (auto simp: handleDeleteNote_def Let_def split: list.splits)
  qed
qed

lemma example_delete:
  "activeNote \<lparr>notes = [note_X, note_Y], activeId = Some (js ''X''), search = []\<rparr> = Some note_X"
  "filter (\<lambda>n. id' n \<noteq> id' note_X) [note_X, note_Y] = [note_Y]"
  "most_recent [note_Y] = Some note_Y"
  "\<forall>n\<in>set [note_X, note_Y]. id' n \<noteq> []"
  "id' note_Y = js ''Y''"
  by (simp_all add: activeNote_def most_recent_def note_X_def note_Y_def js_def)

theorem handleDeleteNote_reassigns_witness:
  "activeNote \<lparr>notes = [note_X, note_Y], activeId = Some (js ''X''), search = []\<rparr> = Some note_X
   \<and> timestamped [note_X, note_Y] \<and> id' note_X \<noteq> [] \<and> id' note_Y \<noteq> []
   \<and> notes (handleDeleteNote True
        \<lparr>notes = [note_X, note_Y], activeId = Some (js ''X''), search = []\<rparr>) = [note_Y]
   \<and> activeId (handleDeleteNote True
        \<lparr>notes = [note_X, note_Y], activeId = Some (js ''X''), search = []\<rparr>) = Some (js ''Y'')"
proof -
  let ?st = "\<lparr>notes = [note_X, note_Y], activeId = Some (js ''X''), search = []\<rparr>"
  have h: "activeNote ?st = Some note_X \<and> True"
    using example_delete(1) by simp
  have w: "timestamped (notes ?st) \<and> (\<forall>n\<in>set (notes ?st). id' n \<noteq> [])"
    using example_delete(4) example_notes_timestamped(2) by simp
  from handleDeleteNote_reassigns [where st = ?st and ok = True and a = note_X] h w
  have n: "notes (handleDeleteNote True ?st) = filter (\<lambda>n. id' n \<noteq> id' note_X) (notes ?st)"
    and p: "activeId (handleDeleteNote True ?st)
              = map_option id' (most_recent (notes (handleDeleteNote True ?st)))"
    by blast+
  from n have n': "notes (handleDeleteNote True ?st) = [note_Y]"
    using example_delete(2) by simp
  from p n' have "activeId (handleDeleteNote True ?st) = Some (js ''Y'')"
    using example_delete(3,5) by simp
  with n' h w show ?thesis by simp
qed

section \<open>Properties of the write coalescer\<close>

lemma debounced_idle:
  "idle env \<Longrightarrow> armed delay arg (debounced delay arg env) \<and> saved (debounced delay arg env) = saved env"
  by (auto simp: idle_def armed_def debounced_def setTimeout_def clearTimeout_def Let_def
      split: option.splits)

lemma elapse_armed_early:
  assumes "armed delay arg env" "d < delay"
  shows "\<exists>h. pending (elapse d env) = [(h, clock env + delay, arg)] \<and> timeoutRef (elapse d env) = Some h
           \<and> 0 < h \<and> h < next_handle (elapse d env)"
    and "saved (elapse d env) = saved env"
    and "clock (elapse d env) = clock env + d"
  using assms by (auto simp: armed_def elapse_def Let_def)

lemma debounced_rearm:
  assumes "armed delay arg env" "gap < delay"
  shows "armed delay arg' (debounced delay arg' (elapse gap env))"
    and "saved (debounced delay arg' (elapse gap env)) = saved env"
proof -
  from elapse_armed_early [OF assms] obtain h where
    h: "pending (elapse gap env) = [(h, clock env + delay, arg)]"
       "timeoutRef (elapse gap env) = Some h" "0 < h" "h < next_handle (elapse gap env)"
    and s: "saved (elapse gap env) = saved env" by blast
  from h show "armed delay arg' (debounced delay arg' (elapse gap env))"
    by (simp add: armed_def debounced_def setTimeout_def clearTimeout_def Let_def)
  from h s show "saved (debounced delay arg' (elapse gap env)) = saved env"
    by (simp add: debounced_def setTimeout_def clearTimeout_def Let_def)
qed

lemma burst_armed:
  "armed delay arg env \<Longrightarrow> \<forall>(gap, a)\<in>set calls. gap < delay
     \<Longrightarrow> armed delay (last (arg # map snd calls)) (burst delay calls env)
       \<and> saved (burst delay calls env) = saved env"
proof (induction calls arbitrary: arg env)
  case Nil
  then show ?case by simp
next
  case (Cons c calls)
  obtain gap a where c: "c = (gap, a)" by (cases c)
  with Cons.prems have g: "gap < delay" and rest: "\<forall>(gap, a)\<in>set calls. gap < delay" by auto
  from debounced_rearm [OF Cons.prems(1) g, of a]
  have "armed delay a (debounced delay a (elapse gap env))"
    and "saved (debounced delay a (elapse gap env)) = saved env" by simp_all
  with Cons.IH [OF _ rest, of a "debounced delay a (elapse gap env)"] c show ?case by simp
qed

lemma elapse_armed_late:
  "armed delay arg env \<Longrightarrow> delay \<le> d
     \<Longrightarrow> saved (elapse d env) = saved env @ [arg] \<and> pending (elapse d env) = []"
  by (auto simp: armed_def elapse_def Let_def)

lemma teardown_armed:
  "armed delay arg env \<Longrightarrow> d < delay
     \<Longrightarrow> pending (teardown (elapse d env)) = [] \<and> saved (teardown (elapse d env)) = saved env"
  using elapse_armed_early [of delay arg env d]
  by (auto simp: teardown_def clearTimeout_def)

lemma elapse_no_pending: "pending env = [] \<Longrightarrow> saved (elapse d env) = saved env \<and> pending (elapse d env) = []"
  by (simp add: elapse_def)

lemma teardown_no_pending: "pending env = [] \<Longrightarrow> pending (teardown env) = [] \<and> saved (teardown env) = saved env"
  by (simp add: teardown_def clearTimeout_def split: option.splits)

text \<open>
  Claim C9. Let no timer be set, and let \<^verbatim>\<open>debounced\<close> be called once and then again
  for every element of \<open>calls\<close>, each call less than \<open>delay\<close> milliseconds after the
  one before. Then one timer is set, carrying the argument of the last call, and
  \<^verbatim>\<open>saveNotes\<close> has not been called; it is not called before \<open>delay\<close> milliseconds have
  passed; after \<open>delay\<close> milliseconds or more it has been called exactly once, with the
  argument of the last call, and is not called again. After the teardown, whenever it
  runs, no timer is set and \<^verbatim>\<open>saveNotes\<close> is not called any more.
\<close>

theorem debounced_coalesces:
  "idle env \<and> (\<forall>(gap, a)\<in>set calls. gap < delay) \<longrightarrow>
     map (\<lambda>(h, due, a). a) (pending (burst delay calls (debounced delay arg env)))
       = [last (arg # map snd calls)]
   \<and> saved (burst delay calls (debounced delay arg env)) = saved env
   \<and> (\<forall>d<delay. saved (elapse d (burst delay calls (debounced delay arg env))) = saved env)
   \<and> (\<forall>d\<ge>delay.
         saved (elapse d (burst delay calls (debounced delay arg env)))
           = saved env @ [last (arg # map snd calls)]
       \<and> pending (elapse d (burst delay calls (debounced delay arg env))) = []
       \<and> (\<forall>d'. saved (elapse d' (elapse d (burst delay calls (debounced delay arg env))))
                 = saved env @ [last (arg # map snd calls)]))
   \<and> (\<forall>d. pending (teardown (elapse d (burst delay calls (debounced delay arg env)))) = []
       \<and> (\<forall>d'. saved (elapse d' (teardown (elapse d (burst delay calls (debounced delay arg env)))))
                 = saved (elapse d (burst delay calls (debounced delay arg env))))
       \<and> (d < delay \<longrightarrow>
            saved (teardown (elapse d (burst delay calls (debounced delay arg env)))) = saved env))"
proof (intro impI)
  assume h: "idle env \<and> (\<forall>(gap, a)\<in>set calls. gap < delay)"
  let ?e = "burst delay calls (debounced delay arg env)"
  let ?final = "last (arg # map snd calls)"
  from h debounced_idle [of env delay arg]
  have a0: "armed delay arg (debounced delay arg env)"
    and s0: "saved (debounced delay arg env) = saved env" by simp_all
  from burst_armed [OF a0, of calls] h s0
  have a: "armed delay ?final ?e" and s: "saved ?e = saved env" by simp_all
  have 1: "map (\<lambda>(h, due, a). a) (pending ?e) = [?final]"
    using a by (auto simp: armed_def)
  have 2: "saved (elapse d ?e) = saved env" if "d < delay" for d
    using elapse_armed_early(2) [OF a that] s by simp
  have 3: "saved (elapse d ?e) = saved env @ [?final] \<and> pending (elapse d ?e) = []
           \<and> (\<forall>d'. saved (elapse d' (elapse d ?e)) = saved env @ [?final])"
    if "delay \<le> d" for d
    using elapse_armed_late [OF a that] s elapse_no_pending [of "elapse d ?e"] by simp
  have 4: "pending (teardown (elapse d ?e)) = []
       \<and> (\<forall>d'. saved (elapse d' (teardown (elapse d ?e))) = saved (elapse d ?e))
       \<and> (d < delay \<longrightarrow> saved (teardown (elapse d ?e)) = saved env)" for d
  proof (cases "d < delay")
    case True
    from teardown_armed [OF a True] s 2 [OF True]
      elapse_no_pending [of "teardown (elapse d ?e)"]
    show ?thesis by simp
  next
    case False
    then have "delay \<le> d" by simp
    from 3 [OF this] have "pending (elapse d ?e) = []" by simp
    from teardown_no_pending [OF this] elapse_no_pending [of "teardown (elapse d ?e)"] False
    show ?thesis by simp
  qed
  from 1 s 2 3 4 show "map (\<lambda>(h, due, a). a) (pending ?e) = [?final]
   \<and> saved ?e = saved env
   \<and> (\<forall>d<delay. saved (elapse d ?e) = saved env)
   \<and> (\<forall>d\<ge>delay. saved (elapse d ?e) = saved env @ [?final] \<and> pending (elapse d ?e) = []
       \<and> (\<forall>d'. saved (elapse d' (elapse d ?e)) = saved env @ [?final]))
   \<and> (\<forall>d. pending (teardown (elapse d ?e)) = []
       \<and> (\<forall>d'. saved (elapse d' (teardown (elapse d ?e))) = saved (elapse d ?e))
       \<and> (d < delay \<longrightarrow> saved (teardown (elapse d ?e)) = saved env))"
    by blast
qed

theorem debounced_coalesces_witness:
  "idle mounted_env \<and> (100::nat) < 300 \<and> (299::nat) < 300
   \<and> saved (elapse 299 (burst 300 [(100, js ''ab''), (299, js ''abc'')]
        (debounced 300 (js ''a'') mounted_env))) = []
   \<and> saved (elapse 300 (burst 300 [(100, js ''ab''), (299, js ''abc'')]
        (debounced 300 (js ''a'') mounted_env))) = [js ''abc'']
   \<and> saved (elapse 1000 (teardown (elapse 299 (burst 300 [(100, js ''ab''), (299, js ''abc'')]
        (debounced 300 (js ''a'') mounted_env))))) = []"
proof -
  let ?calls = "[(100, js ''ab''), (299, js ''abc'')] :: (nat \<times> jsstring) list"
  have h: "idle mounted_env \<and> (\<forall>(gap, a)\<in>set ?calls. gap < (300::nat))"
    by (simp add: idle_def mounted_env_def)
  have s: "saved mounted_env = []"
    by (simp add: mounted_env_def)
  note t = debounced_coalesces [where env = mounted_env and calls = ?calls and delay = 300
      and arg = "js ''a''"]
  from t h s
  have 1: "saved (elapse 299 (burst 300 ?calls (debounced 300 (js ''a'') mounted_env))) = []"
    by simp
  from t h s
  have 2: "saved (elapse 300 (burst 300 ?calls (debounced 300 (js ''a'') mounted_env)))
       = [js ''abc'']"
    by simp
  from t h have "saved (elapse 1000 (teardown (elapse 299 (burst 300 ?calls
       (debounced 300 (js ''a'') mounted_env))))) = saved (elapse 299 (burst 300 ?calls
       (debounced 300 (js ''a'') mounted_env)))"
    by blast
  with 1 2 h show ?thesis by simp
qed

end
